theory Spec2Isabelle
  imports Main
begin

section \<open>Text\<close>

text \<open>
  The migration \<^verbatim>\<open>gui/network/migrations/0009_move_options_and_mtu.py\<close> works on
  Python 3 \<^verbatim>\<open>str\<close> values. A \<^typ>\<open>char\<close> stands for the Unicode code point of the same
  number, so a \<^typ>\<open>string\<close> is a \<^verbatim>\<open>str\<close> over the code points U+0000 to U+00FF; text
  beyond U+00FF is outside the model.
\<close>

subsection \<open>The character classes of \<^verbatim>\<open>re\<close>\<close>

definition is_digit :: "char \<Rightarrow> bool" where
  \<comment> \<open>\<^verbatim>\<open>\d\<close>: the decimal digits; below U+0100 these are 0 to 9.\<close>
  "is_digit c = (48 \<le> (of_char c :: nat) \<and> (of_char c :: nat) \<le> 57)"

definition is_word :: "char \<Rightarrow> bool" where
  \<comment> \<open>\<^verbatim>\<open>\w\<close>: \<^verbatim>\<open>str.isalnum\<close> or the underscore. Below U+0100: 0-9, A-Z, a-z, the
      ordinal indicators U+00AA and U+00BA, the micro sign U+00B5, the superscripts
      U+00B2, U+00B3, U+00B9, the fractions U+00BC to U+00BE, and the letters
      U+00C0 to U+00FF without the two operators U+00D7 and U+00F7.\<close>
  "is_word c =
     (let n = (of_char c :: nat) in
        (48 \<le> n \<and> n \<le> 57) \<or> (65 \<le> n \<and> n \<le> 90) \<or> n = 95 \<or> (97 \<le> n \<and> n \<le> 122)
        \<or> n = 170 \<or> n = 178 \<or> n = 179 \<or> n = 181 \<or> n = 185 \<or> n = 186
        \<or> (188 \<le> n \<and> n \<le> 190)
        \<or> (192 \<le> n \<and> n \<le> 214) \<or> (216 \<le> n \<and> n \<le> 246) \<or> 248 \<le> n)"

definition is_space :: "char \<Rightarrow> bool" where
  \<comment> \<open>\<^verbatim>\<open>\s\<close>: \<^verbatim>\<open>str.isspace\<close>. Below U+0100: U+0009 to U+000D, U+001C to U+0020,
      U+0085 and U+00A0.\<close>
  "is_space c =
     (let n = (of_char c :: nat) in
        (9 \<le> n \<and> n \<le> 13) \<or> (28 \<le> n \<and> n \<le> 32) \<or> n = 133 \<or> n = 160)"

definition newline :: char where
  "newline = CHR 0x0A"

subsection \<open>\<^verbatim>\<open>str.startswith\<close>, \<^verbatim>\<open>str.endswith\<close>, \<^verbatim>\<open>str.replace\<close>\<close>

definition startswith :: "string \<Rightarrow> string \<Rightarrow> bool" where
  "startswith s p = (take (length p) s = p)"

definition endswith :: "string \<Rightarrow> string \<Rightarrow> bool" where
  "endswith s p = (length p \<le> length s \<and> drop (length s - length p) s = p)"

text \<open>
  \<^verbatim>\<open>s.replace(old, new)\<close> for a non-empty \<^verbatim>\<open>old\<close>: the occurrences are found from the
  left and do not overlap; after an occurrence the scan goes on behind it.
\<close>

fun replace_from :: "string \<Rightarrow> string \<Rightarrow> string \<Rightarrow> string" where
  "replace_from [] old new = []"
| "replace_from (c # cs) old new =
     (if startswith (c # cs) old then new @ replace_from (drop (length old - 1) cs) old new
      else c # replace_from cs old new)"

definition replace :: "string \<Rightarrow> string \<Rightarrow> string \<Rightarrow> string" where
  \<comment> \<open>An empty \<^verbatim>\<open>old\<close> matches before every character and at the end.\<close>
  "replace s old new =
     (if old = [] then new @ concat (map (\<lambda>c. c # new) s) else replace_from s old new)"

subsection \<open>The options of a LAGG member\<close>

text \<open>
  The value of the local variable \<^verbatim>\<open>options\<close> of \<^verbatim>\<open>move_laggmember_options\<close>, as a
  function of \<^verbatim>\<open>laggmember.lagg_deviceoptions\<close>.
\<close>

definition member_options :: "string \<Rightarrow> string" where
  "member_options deviceoptions =
     (if deviceoptions \<noteq> ''up'' then
        (if startswith deviceoptions ''up'' then replace deviceoptions ''up '' ''''
         else if endswith deviceoptions ''up'' then replace deviceoptions '' up'' ''''
         else replace deviceoptions '' up '' '''')
      else '''')"

subsection \<open>\<^verbatim>\<open>RE_MTU\<close> and \<^verbatim>\<open>re.sub\<close>\<close>

text \<open>
  \<^verbatim>\<open>RE_MTU = re.compile(r'(?P<before>.*)\bmtu (?P<mtu>\d+)\b(?P<after>.*)')\<close>.
  The matcher below follows the backtracking engine on this pattern, piece by piece.
  Positions are indices into the subject, from 0 to its length.
\<close>

definition word_boundary :: "string \<Rightarrow> nat \<Rightarrow> bool" where
  \<comment> \<open>\<^verbatim>\<open>\b\<close>: exactly one of the characters left and right of the position is a word
      character; beyond either end of the subject there is none.\<close>
  "word_boundary s k =
     ((0 < k \<and> k \<le> length s \<and> is_word (s ! (k - 1))) \<noteq> (k < length s \<and> is_word (s ! k)))"

fun first_some :: "('a \<Rightarrow> 'b option) \<Rightarrow> 'a list \<Rightarrow> 'b option" where
  \<comment> \<open>The first alternative that succeeds, in the order tried.\<close>
  "first_some f [] = None"
| "first_some f (x # xs) = (case f x of Some y \<Rightarrow> Some y | None \<Rightarrow> first_some f xs)"

definition match_digits :: "string \<Rightarrow> nat \<Rightarrow> nat option" where
  \<comment> \<open>\<^verbatim>\<open>\d+\b\<close> at position \<open>p\<close>: the greedy \<^verbatim>\<open>\d+\<close> takes the whole run of digits and
      gives them back one at a time, down to one digit, until \<^verbatim>\<open>\b\<close> holds behind it.
      The result is the position behind the digits.\<close>
  "match_digits s p =
     (let n = length (takeWhile is_digit (drop p s))
      in List.find (word_boundary s) (map (\<lambda>j. p + j) (rev [1..<Suc n])))"

definition match_token :: "string \<Rightarrow> nat \<Rightarrow> nat option" where
  \<comment> \<open>\<^verbatim>\<open>\bmtu \d+\b\<close> at position \<open>k\<close>; the result is the position behind the token.\<close>
  "match_token s k =
     (if word_boundary s k \<and> startswith (drop k s) ''mtu '' then match_digits s (k + 4)
      else None)"

record re_match =
  group_before :: string
  group_mtu :: string
  group_after :: string

definition match_at :: "string \<Rightarrow> nat \<Rightarrow> re_match option" where
  \<comment> \<open>The whole pattern from the start position \<open>st\<close>. The greedy \<^verbatim>\<open>.*\<close> of
      \<^verbatim>\<open>before\<close> runs to the end of the line (\<^verbatim>\<open>.\<close> matches no newline) and gives
      characters back one at a time; \<^verbatim>\<open>after\<close> takes the rest of the line.\<close>
  "match_at s st =
     (let eol = st + length (takeWhile (\<lambda>c. c \<noteq> newline) (drop st s))
      in first_some
           (\<lambda>k. case match_token s k of
                   None \<Rightarrow> None
                 | Some e \<Rightarrow>
                     Some \<lparr>group_before = take (k - st) (drop st s),
                           group_mtu = take (e - (k + 4)) (drop (k + 4) s),
                           group_after = takeWhile (\<lambda>c. c \<noteq> newline) (drop e s)\<rparr>)
           (rev [st..<Suc eol]))"

definition RE_MTU_search :: "string \<Rightarrow> re_match option" where
  \<comment> \<open>\<^verbatim>\<open>RE_MTU.search(s)\<close>: the first start position, from the left, with a match.\<close>
  "RE_MTU_search s = first_some (match_at s) [0..<Suc (length s)]"

definition int_str :: "string \<Rightarrow> nat" where
  \<comment> \<open>\<^verbatim>\<open>int(reg.group('mtu'))\<close> on a string of the digits 0 to 9.\<close>
  "int_str ds = foldl (\<lambda>n c. 10 * n + ((of_char c :: nat) - 48)) 0 ds"

text \<open>
  \<^verbatim>\<open>re.sub(r'\s{2,}', r' ', s)\<close>: every maximal run of two or more whitespace
  characters becomes one space; a whitespace character on its own stays as it is.
\<close>

function sub_spaces :: "string \<Rightarrow> string" where
  "sub_spaces [] = []"
| "sub_spaces (c # cs) =
     (if is_space c \<and> (case cs of [] \<Rightarrow> False | d # _ \<Rightarrow> is_space d)
      then CHR '' '' # sub_spaces (dropWhile is_space cs)
      else c # sub_spaces cs)"
  by pat_completeness auto
termination
  by (relation "measure length") (auto simp: le_imp_less_Suc length_dropWhile_le)

section \<open>The store\<close>

text \<open>
  Modelled from the spec: the models \<^verbatim>\<open>Interfaces\<close>, \<^verbatim>\<open>LAGGInterface\<close> and
  \<^verbatim>\<open>LAGGInterfaceMembers\<close> of \<^verbatim>\<open>gui/network/models.py\<close> are not part of the sources at
  hand. The records hold the primary key and the columns the migration reads or writes;
  the other columns of an \<^verbatim>\<open>Interfaces\<close> row are the extension part of the record. A
  table is the list of its rows in the order in which the store returns them.
\<close>

datatype error = DoesNotExist

record interfaces =
  int_pk :: nat
  int_interface :: string
  int_name :: string
  int_options :: string
  int_mtu :: "nat option"

record lagginterface =
  lagg_pk :: nat
  lagg_interface :: nat

record lagginterfacemembers =
  laggmember_pk :: nat
  lagg_interfacegroup :: nat
  lagg_physnic :: string
  lagg_deviceoptions :: string

record 'z database =
  Interfaces :: "'z interfaces_scheme list"
  LAGGInterface :: "lagginterface list"
  LAGGInterfaceMembers :: "lagginterfacemembers list"

definition save :: "'z interfaces_scheme \<Rightarrow> 'z interfaces_scheme list \<Rightarrow> 'z interfaces_scheme list" where
  \<comment> \<open>\<^verbatim>\<open>interface.save()\<close> of an instance read from the table: every column of the row
      with the instance's primary key is written.\<close>
  "save inst rows = map (\<lambda>r. if int_pk r = int_pk inst then inst else r) rows"

definition next_pk :: "'z interfaces_scheme list \<Rightarrow> nat" where
  \<comment> \<open>The key the store gives a new row: one above every key in the table.\<close>
  "next_pk rows = Suc (fold max (map int_pk rows) 0)"

definition create :: "'z \<Rightarrow> string \<Rightarrow> string \<Rightarrow> string \<Rightarrow> 'z interfaces_scheme list \<Rightarrow> 'z interfaces_scheme list" where
  \<comment> \<open>\<^verbatim>\<open>Interfaces.objects.create(int_interface=.., int_name=.., int_options=..)\<close>; the
      columns not named get their defaults \<open>blank\<close>.\<close>
  "create blank nic name options rows =
     rows @ [\<lparr>int_pk = next_pk rows, int_interface = nic, int_name = name,
              int_options = options, int_mtu = None, \<dots> = blank\<rparr>]"

definition get_lagg :: "nat \<Rightarrow> lagginterface list \<Rightarrow> error + lagginterface" where
  \<comment> \<open>Following the foreign key \<^verbatim>\<open>laggmember.lagg_interfacegroup\<close>.\<close>
  "get_lagg k laggs =
     (case List.find (\<lambda>l. lagg_pk l = k) laggs of None \<Rightarrow> Inl DoesNotExist | Some l \<Rightarrow> Inr l)"

definition get_interface :: "nat \<Rightarrow> 'z interfaces_scheme list \<Rightarrow> error + 'z interfaces_scheme" where
  \<comment> \<open>Following the foreign key \<^verbatim>\<open>lagg.lagg_interface\<close>.\<close>
  "get_interface k rows =
     (case List.find (\<lambda>r. int_pk r = k) rows of None \<Rightarrow> Inl DoesNotExist | Some r \<Rightarrow> Inr r)"

section \<open>\<^verbatim>\<open>move_laggmember_options\<close>\<close>

definition move_laggmember :: "'z \<Rightarrow> lagginterfacemembers \<Rightarrow> 'z database \<Rightarrow> error + 'z database" where
  \<comment> \<open>The body of the loop, for one \<^verbatim>\<open>laggmember\<close>.\<close>
  "move_laggmember blank laggmember db =
     (let interface = filter (\<lambda>r. int_interface r = lagg_physnic laggmember) (Interfaces db);
          options = member_options (lagg_deviceoptions laggmember)
      in case interface of
           i # _ \<Rightarrow> Inr (db\<lparr>Interfaces := save (i\<lparr>int_options := options\<rparr>) (Interfaces db)\<rparr>)
         | [] \<Rightarrow>
             (case get_lagg (lagg_interfacegroup laggmember) (LAGGInterface db) of
                Inl e \<Rightarrow> Inl e
              | Inr lagg \<Rightarrow>
                  (case get_interface (lagg_interface lagg) (Interfaces db) of
                     Inl e \<Rightarrow> Inl e
                   | Inr parent \<Rightarrow>
                       Inr (db\<lparr>Interfaces :=
                              create blank (lagg_physnic laggmember)
                                (''member of '' @ int_interface parent) options
                                (Interfaces db)\<rparr>))))"

fun move_laggmembers :: "'z \<Rightarrow> lagginterfacemembers list \<Rightarrow> 'z database \<Rightarrow> error + 'z database" where
  "move_laggmembers blank [] db = Inr db"
| "move_laggmembers blank (laggmember # rest) db =
     (case move_laggmember blank laggmember db of
        Inl e \<Rightarrow> Inl e
      | Inr db' \<Rightarrow> move_laggmembers blank rest db')"

definition move_laggmember_options :: "'z \<Rightarrow> 'z database \<Rightarrow> error + 'z database" where
  "move_laggmember_options blank db = move_laggmembers blank (LAGGInterfaceMembers db) db"

section \<open>\<^verbatim>\<open>move_mtu_from_options\<close>\<close>

definition extract_mtu :: "'z interfaces_scheme \<Rightarrow> 'z interfaces_scheme option" where
  \<comment> \<open>The body of the first loop, for one row \<open>i\<close>: the instance that is saved, or
      \<open>None\<close> where the loop goes on to the next row without saving.\<close>
  "extract_mtu i =
     (if int_options i = [] then None
      else case RE_MTU_search (int_options i) of
             None \<Rightarrow> None
           | Some reg \<Rightarrow>
               Some (i\<lparr>int_mtu := Some (int_str (group_mtu reg)),
                       int_options := sub_spaces (group_before reg @ group_after reg)\<rparr>))"

definition extract_step :: "'z interfaces_scheme \<Rightarrow> 'z interfaces_scheme list \<Rightarrow> 'z interfaces_scheme list" where
  "extract_step i rows = (case extract_mtu i of None \<Rightarrow> rows | Some i' \<Rightarrow> save i' rows)"

definition truthy :: "nat option \<Rightarrow> bool" where
  \<comment> \<open>The truth value of an \<^verbatim>\<open>int_mtu\<close>: \<^verbatim>\<open>None\<close> and \<^verbatim>\<open>0\<close> are false.\<close>
  "truthy v = (case v of None \<Rightarrow> False | Some n \<Rightarrow> n \<noteq> 0)"

definition lower_mtu :: "nat \<Rightarrow> nat option \<Rightarrow> nat option" where
  \<comment> \<open>\<^verbatim>\<open>if not lowest_mtu or interface.int_mtu < lowest_mtu: lowest_mtu = interface.int_mtu\<close>\<close>
  "lower_mtu m lowest_mtu =
     (case lowest_mtu of
        None \<Rightarrow> Some m
      | Some l \<Rightarrow> if l = 0 \<or> m < l then Some m else Some l)"

definition member_mtu ::
  "lagginterfacemembers \<Rightarrow> nat option \<times> 'z interfaces_scheme list \<Rightarrow> nat option \<times> 'z interfaces_scheme list" where
  \<comment> \<open>The body of the inner loop, for one \<^verbatim>\<open>member\<close>, on \<^verbatim>\<open>lowest_mtu\<close> and the table.\<close>
  "member_mtu member st =
     (case st of (lowest_mtu, rows) \<Rightarrow>
        (case filter (\<lambda>r. int_interface r = lagg_physnic member) rows of
           [] \<Rightarrow> (lowest_mtu, rows)
         | interface # _ \<Rightarrow>
             (case int_mtu interface of
                None \<Rightarrow> (lowest_mtu, rows)
              | Some m \<Rightarrow>
                  if m = 0 then (lowest_mtu, rows)
                  else (lower_mtu m lowest_mtu, save (interface\<lparr>int_mtu := None\<rparr>) rows))))"

definition lagginterfacemembers_set :: "lagginterface \<Rightarrow> 'z database \<Rightarrow> lagginterfacemembers list" where
  "lagginterfacemembers_set lagg db =
     filter (\<lambda>m. lagg_interfacegroup m = lagg_pk lagg) (LAGGInterfaceMembers db)"

definition lagg_mtu :: "lagginterface \<Rightarrow> 'z database \<Rightarrow> error + 'z database" where
  \<comment> \<open>The body of the second loop, for one \<^verbatim>\<open>lagg\<close>.\<close>
  "lagg_mtu lagg db =
     (case fold member_mtu (lagginterfacemembers_set lagg db) (None, Interfaces db) of
        (lowest_mtu, rows) \<Rightarrow>
          if truthy lowest_mtu then
            (case get_interface (lagg_interface lagg) rows of
               Inl e \<Rightarrow> Inl e
             | Inr interface \<Rightarrow>
                 Inr (db\<lparr>Interfaces := save (interface\<lparr>int_mtu := lowest_mtu\<rparr>) rows\<rparr>))
          else Inr (db\<lparr>Interfaces := rows\<rparr>))"

fun lagg_mtus :: "lagginterface list \<Rightarrow> 'z database \<Rightarrow> error + 'z database" where
  "lagg_mtus [] db = Inr db"
| "lagg_mtus (lagg # rest) db =
     (case lagg_mtu lagg db of Inl e \<Rightarrow> Inl e | Inr db' \<Rightarrow> lagg_mtus rest db')"

definition move_mtu_from_options :: "'z database \<Rightarrow> error + 'z database" where
  "move_mtu_from_options db =
     lagg_mtus (LAGGInterface db)
       (db\<lparr>Interfaces := fold extract_step (Interfaces db) (Interfaces db)\<rparr>)"

section \<open>The migration\<close>

definition remove_field :: "'z database \<Rightarrow> 'z database" where
  \<comment> \<open>\<^verbatim>\<open>RemoveField('lagginterfacemembers', 'lagg_deviceoptions')\<close>: the column is gone;
      the record keeps the field, emptied.\<close>
  "remove_field db =
     db\<lparr>LAGGInterfaceMembers := map (\<lambda>m. m\<lparr>lagg_deviceoptions := []\<rparr>) (LAGGInterfaceMembers db)\<rparr>"

definition add_field :: "'z database \<Rightarrow> 'z database" where
  \<comment> \<open>\<^verbatim>\<open>AddField('interfaces', 'int_mtu', null=True)\<close>: every row starts with no MTU.\<close>
  "add_field db = db\<lparr>Interfaces := map (\<lambda>r. r\<lparr>int_mtu := None\<rparr>) (Interfaces db)\<rparr>"

definition Migration :: "'z \<Rightarrow> 'z database \<Rightarrow> error + 'z database" where
  \<comment> \<open>\<^verbatim>\<open>Migration.operations\<close>, in order.\<close>
  "Migration blank db =
     (case move_laggmember_options blank db of
        Inl e \<Rightarrow> Inl e
      | Inr db1 \<Rightarrow> move_mtu_from_options (add_field (remove_field db1)))"

section \<open>Notions for the statements\<close>

fun contains :: "string \<Rightarrow> string \<Rightarrow> bool" where
  \<comment> \<open>\<^verbatim>\<open>p in s\<close>: \<open>p\<close> occurs in \<open>s\<close> as a run of consecutive characters.\<close>
  "contains [] p = (p = [])"
| "contains (c # cs) p = (startswith (c # cs) p \<or> contains cs p)"

fun count_str :: "string \<Rightarrow> string \<Rightarrow> nat" where
  \<comment> \<open>The number of positions of \<open>s\<close> at which \<open>p\<close> starts.\<close>
  "count_str [] p = 0"
| "count_str (c # cs) p = (if startswith (c # cs) p then 1 else 0) + count_str cs p"

definition token_positions :: "string \<Rightarrow> nat list" where
  \<comment> \<open>The positions of the standalone \<^verbatim>\<open>mtu <N>\<close> tokens of \<open>s\<close>, from the left.\<close>
  "token_positions s = filter (\<lambda>k. match_token s k \<noteq> None) [0..<length s]"

definition has_mtu_token :: "string \<Rightarrow> bool" where
  "has_mtu_token s = (token_positions s \<noteq> [])"

definition token_at :: "string \<Rightarrow> nat \<Rightarrow> string" where
  \<comment> \<open>The text of the token at position \<open>k\<close>.\<close>
  "token_at s k = (case match_token s k of None \<Rightarrow> [] | Some e \<Rightarrow> take (e - k) (drop k s))"

definition token_mtu :: "string \<Rightarrow> nat \<Rightarrow> nat" where
  \<comment> \<open>The number of the token at position \<open>k\<close>.\<close>
  "token_mtu s k = int_str (drop 4 (token_at s k))"

definition unique_pks :: "'z database \<Rightarrow> bool" where
  \<comment> \<open>The primary key constraint of the \<^verbatim>\<open>Interfaces\<close> table.\<close>
  "unique_pks db = distinct (map int_pk (Interfaces db))"

text \<open>A store for the examples: the group \<^verbatim>\<open>lagg0\<close> over \<^verbatim>\<open>em0\<close>, which has a row, and
  \<^verbatim>\<open>em1\<close>, which has none.\<close>

definition lagg0 :: interfaces where
  "lagg0 = \<lparr>int_pk = 1, int_interface = ''lagg0'', int_name = ''lagg0'', int_options = [],
            int_mtu = None\<rparr>"

definition em0 :: interfaces where
  "em0 = \<lparr>int_pk = 2, int_interface = ''em0'', int_name = ''em0'', int_options = ''foo'',
          int_mtu = None\<rparr>"

definition member_em0 :: lagginterfacemembers where
  "member_em0 = \<lparr>laggmember_pk = 1, lagg_interfacegroup = 1, lagg_physnic = ''em0'',
                 lagg_deviceoptions = ''up mtu 9000''\<rparr>"

definition member_em1 :: lagginterfacemembers where
  "member_em1 = \<lparr>laggmember_pk = 2, lagg_interfacegroup = 1, lagg_physnic = ''em1'',
                 lagg_deviceoptions = ''mtu 1500 up''\<rparr>"

definition example_db :: "unit database" where
  "example_db = \<lparr>Interfaces = [lagg0, em0], LAGGInterface = [\<lparr>lagg_pk = 1, lagg_interface = 1\<rparr>],
                 LAGGInterfaceMembers = [member_em0, member_em1]\<rparr>"

definition extracted :: "'z interfaces_scheme \<Rightarrow> 'z interfaces_scheme" where
  \<comment> \<open>A row as the first loop of \<^verbatim>\<open>move_mtu_from_options\<close> leaves it.\<close>
  "extracted i = (case extract_mtu i of None \<Rightarrow> i | Some i' \<Rightarrow> i')"

definition example_db_relocated :: "unit database" where
  \<comment> \<open>\<open>example_db\<close> after \<^verbatim>\<open>move_laggmember_options\<close>.\<close>
  "example_db_relocated =
     example_db\<lparr>Interfaces :=
       [lagg0, em0\<lparr>int_options := ''mtu 9000''\<rparr>,
        \<lparr>int_pk = 3, int_interface = ''em1'', int_name = ''member of lagg0'',
         int_options = ''mtu 1500'', int_mtu = None\<rparr>]\<rparr>"

definition example_db_migrated :: "unit database" where
  \<comment> \<open>\<open>example_db\<close> after the whole migration.\<close>
  "example_db_migrated =
     \<lparr>Interfaces =
        [lagg0\<lparr>int_mtu := Some 1500\<rparr>, em0\<lparr>int_options := []\<rparr>,
         \<lparr>int_pk = 3, int_interface = ''em1'', int_name = ''member of lagg0'',
          int_options = [], int_mtu = None\<rparr>],
      LAGGInterface = [\<lparr>lagg_pk = 1, lagg_interface = 1\<rparr>],
      LAGGInterfaceMembers =
        [member_em0\<lparr>lagg_deviceoptions := []\<rparr>, member_em1\<lparr>lagg_deviceoptions := []\<rparr>]\<rparr>"

definition two_tokens_db :: "unit database" where
  \<comment> \<open>One interface whose options name the MTU twice; no LAGG.\<close>
  "two_tokens_db =
     \<lparr>Interfaces = [em0\<lparr>int_options := ''mtu 1500 mtu 9000''\<rparr>], LAGGInterface = [],
      LAGGInterfaceMembers = []\<rparr>"

definition first_rows :: "'z interfaces_scheme list \<Rightarrow> lagginterfacemembers list \<Rightarrow> 'z interfaces_scheme list" where
  \<comment> \<open>For each member with a row for its NIC, the first such row: what
      \<^verbatim>\<open>Interfaces.objects.filter(int_interface=member.lagg_physnic)[0]\<close> finds.\<close>
  "first_rows rows ms =
     List.map_filter (\<lambda>m. List.find (\<lambda>r. int_interface r = lagg_physnic m) rows) ms"

definition member_rows :: "lagginterface \<Rightarrow> 'z database \<Rightarrow> 'z interfaces_scheme list" where
  "member_rows lagg db = first_rows (Interfaces db) (lagginterfacemembers_set lagg db)"

definition mtus_of :: "'z interfaces_scheme list \<Rightarrow> nat list" where
  \<comment> \<open>The MTUs of the rows that have one.\<close>
  "mtus_of rs = List.map_filter int_mtu rs"

definition member_mtus :: "lagginterface \<Rightarrow> 'z database \<Rightarrow> nat list" where
  "member_mtus lagg db = mtus_of (member_rows lagg db)"

definition lowest :: "nat list \<Rightarrow> nat option" where
  "lowest xs = (if xs = [] then None else Some (Min (set xs)))"

definition clear_mtus :: "'z interfaces_scheme list \<Rightarrow> 'z interfaces_scheme \<Rightarrow> 'z interfaces_scheme" where
  "clear_mtus rs r = (if r \<in> set rs then r\<lparr>int_mtu := None\<rparr> else r)"

definition em1 :: interfaces where
  \<comment> \<open>The row the relocation makes for \<^verbatim>\<open>em1\<close>, after the first loop.\<close>
  "em1 = \<lparr>int_pk = 3, int_interface = ''em1'', int_name = ''member of lagg0'',
          int_options = [], int_mtu = Some 1500\<rparr>"

definition example_db_extracted :: "unit database" where
  \<comment> \<open>\<open>example_db\<close> between the two loops of \<^verbatim>\<open>move_mtu_from_options\<close>: the members have the
      MTUs 9000 and 1500.\<close>
  "example_db_extracted =
     example_db_migrated\<lparr>Interfaces := [lagg0, em0\<lparr>int_options := [], int_mtu := Some 9000\<rparr>, em1]\<rparr>"

definition zero_mtu_db :: "unit database" where
  \<comment> \<open>As before, with the MTU 0 for \<^verbatim>\<open>em0\<close>, as the options \<^verbatim>\<open>mtu 0\<close> give it.\<close>
  "zero_mtu_db =
     example_db_migrated\<lparr>Interfaces := [lagg0, em0\<lparr>int_options := [], int_mtu := Some 0\<rparr>, em1]\<rparr>"

section \<open>Properties of \<^verbatim>\<open>str.replace\<close>\<close>

lemma replace_from_absent: "\<not> contains s old \<Longrightarrow> replace_from s old new = s"
  by (induction s) auto

lemma replace_from_length_le: "length (replace_from s old []) \<le> length s"
  by (induction s old "[] :: string" rule: replace_from.induct) (auto simp: le_SucI le_diff_conv)

lemma replace_from_shorter:
  "contains s old \<Longrightarrow> old \<noteq> [] \<Longrightarrow> length (replace_from s old []) < length s"
proof (induction s)
  case Nil
  then show ?case by simp
next
  case (Cons c cs)
  show ?case
  proof (cases "startswith (c # cs) old")
    case True
    have "length (replace_from (drop (length old - 1) cs) old []) \<le> length cs"
      using replace_from_length_le [of "drop (length old - 1) cs" old] by simp
    with True show ?thesis by simp
  next
    case False
    with Cons show ?thesis by simp
  qed
qed

lemma replace_from_unchanged_iff:
  "old \<noteq> [] \<Longrightarrow> (replace_from s old [] = s) = (\<not> contains s old)"
  using replace_from_absent [of s old "[]"] replace_from_shorter [of s old] by auto

lemma replace_from_trailing_up:
  "replace_from (rest @ '' up'') '' up'' [] = replace_from rest '' up'' []"
proof (induction rest "'' up''" "[] :: string" rule: replace_from.induct)
  case 1
  show ?case by (simp add: startswith_def)
next
  case (2 c cs)
  show ?case
  proof (cases "startswith (c # cs) '' up''")
    case True
    then obtain ds where cs: "cs = CHR ''u'' # CHR ''p'' # ds" and c: "c = CHR '' ''"
      by (cases cs; cases "tl cs") (auto simp: startswith_def)
    with 2(1) [OF True] show ?thesis by (simp add: startswith_def)
  next
    case False
    then have "\<not> startswith ((c # cs) @ '' up'') '' up''"
      by (cases cs; cases "tl cs") (auto simp: startswith_def)
    with False 2(2) show ?thesis by simp
  qed
qed

section \<open>The options computed for a member\<close>

text \<open>
  C2, as the code has it. For \<^verbatim>\<open>lagg_deviceoptions\<close> of the form \<^verbatim>\<open>"up " + rest\<close> the computed
  options are \<^verbatim>\<open>rest\<close> with every occurrence of \<^verbatim>\<open>"up "\<close> removed, since \<^verbatim>\<open>str.replace\<close>
  replaces all occurrences; they are \<^verbatim>\<open>rest\<close> exactly when \<^verbatim>\<open>"up "\<close> does not occur in \<^verbatim>\<open>rest\<close>.
\<close>

theorem member_options_leading_up:
  "member_options (''up '' @ rest) = replace rest ''up '' []
   \<and> (member_options (''up '' @ rest) = rest) = (\<not> contains rest ''up '')"
proof -
  have "member_options (''up '' @ rest) = replace_from rest ''up '' []"
    by (simp add: member_options_def startswith_def replace_def)
  then show ?thesis
    using replace_from_unchanged_iff [of "''up ''" rest] by (simp add: replace_def)
qed

theorem member_options_leading_up_witness:
  "member_options (''up '' @ ''mtu 9000'') = ''mtu 9000''"
proof -
  have "\<not> contains ''mtu 9000'' ''up ''" by (simp add: startswith_def)
  with member_options_leading_up [of "''mtu 9000''"] show ?thesis by blast
qed

text \<open>
  C2 as stated fails where \<^verbatim>\<open>"up "\<close> occurs again behind the leading token:
  \<^verbatim>\<open>"up foo up bar"\<close> gives \<^verbatim>\<open>"foo bar"\<close>, not \<^verbatim>\<open>"foo up bar"\<close>.
\<close>

theorem member_options_leading_up_counterexample:
  "startswith (''up '' @ ''foo up bar'') ''up'' \<and> ''up '' @ ''foo up bar'' \<noteq> ''up''
   \<and> member_options (''up '' @ ''foo up bar'') \<noteq> ''foo up bar''"
  by (simp add: member_options_def replace_def startswith_def)

text \<open>
  C3: the interior branch removes \<^verbatim>\<open>" up "\<close> with both of its spaces, so the words left and
  right of the token are joined: \<^verbatim>\<open>"foo up bar"\<close> gives \<^verbatim>\<open>"foobar"\<close>, where the claim has
  \<^verbatim>\<open>"foo bar"\<close>. The leading and the trailing branch keep the other options apart. The joined
  words also hide an MTU from \<^verbatim>\<open>RE_MTU\<close>: \<^verbatim>\<open>"mtu 9000 up polling"\<close> holds a token, and the
  computed \<^verbatim>\<open>"mtu 9000polling"\<close> holds none.
\<close>

theorem member_options_interior_up_joined:
  "\<not> startswith ''foo up bar'' ''up'' \<and> \<not> endswith ''foo up bar'' ''up''
   \<and> member_options (''foo'' @ '' up '' @ ''bar'') = ''foobar''
   \<and> member_options (''mtu 9000'' @ '' up '' @ ''polling'') = ''mtu 9000polling''
   \<and> has_mtu_token (''mtu 9000'' @ '' up '' @ ''polling'')
   \<and> \<not> has_mtu_token ''mtu 9000polling''"
  by code_simp

text \<open>
  C4, as the code has it. For \<^verbatim>\<open>lagg_deviceoptions\<close> of the form \<^verbatim>\<open>rest + " up"\<close> that does not
  start with \<^verbatim>\<open>"up"\<close> the computed options are \<^verbatim>\<open>rest\<close> with every occurrence of \<^verbatim>\<open>" up"\<close>
  removed; they are \<^verbatim>\<open>rest\<close> exactly when \<^verbatim>\<open>" up"\<close> does not occur in \<^verbatim>\<open>rest\<close>.
\<close>

theorem member_options_trailing_up:
  assumes "\<not> startswith (rest @ '' up'') ''up''"
  shows "member_options (rest @ '' up'') = replace rest '' up'' []
   \<and> (member_options (rest @ '' up'') = rest) = (\<not> contains rest '' up'')"
proof -
  have "member_options (rest @ '' up'') = replace_from (rest @ '' up'') '' up'' []"
    using assms by (simp add: member_options_def endswith_def replace_def)
  then have "member_options (rest @ '' up'') = replace_from rest '' up'' []"
    by (simp add: replace_from_trailing_up)
  then show ?thesis
    using replace_from_unchanged_iff [of "'' up''" rest] by (simp add: replace_def)
qed

theorem member_options_trailing_up_witness:
  "\<not> startswith (''mtu 1500'' @ '' up'') ''up''
   \<and> member_options (''mtu 1500'' @ '' up'') = ''mtu 1500''"
proof -
  have h: "\<not> startswith (''mtu 1500'' @ '' up'') ''up''" by (simp add: startswith_def)
  have "\<not> contains ''mtu 1500'' '' up''" by (simp add: startswith_def)
  with member_options_trailing_up [OF h] h show ?thesis by blast
qed

text \<open>
  C4 as stated fails where \<^verbatim>\<open>" up"\<close> occurs again before the trailing token:
  \<^verbatim>\<open>"a up b up"\<close> gives \<^verbatim>\<open>"a b"\<close>, not \<^verbatim>\<open>"a up b"\<close>.
\<close>

theorem member_options_trailing_up_counterexample:
  "endswith (''a up b'' @ '' up'') ''up'' \<and> \<not> startswith (''a up b'' @ '' up'') ''up''
   \<and> ''a up b'' @ '' up'' \<noteq> ''up''
   \<and> member_options (''a up b'' @ '' up'') \<noteq> ''a up b''"
  by (simp add: member_options_def replace_def startswith_def endswith_def)

section \<open>The relocation of one member's options\<close>

lemma fold_max_ge: "x \<in> set xs \<Longrightarrow> x \<le> fold max xs (a :: nat)"
proof -
  assume "x \<in> set xs"
  then have "x \<le> Max (set (a # xs))" by (intro Max_ge) auto
  then show ?thesis by (simp only: Max.set_eq_fold)
qed

lemma next_pk_fresh: "r \<in> set rows \<Longrightarrow> int_pk r < next_pk rows"
  using fold_max_ge [of "int_pk r" "map int_pk rows" 0] by (simp add: next_pk_def)

lemma find_filter_conv:
  "List.find P xs = (case filter P xs of [] \<Rightarrow> None | x # _ \<Rightarrow> Some x)"
  by (induction xs) auto

lemma save_distinct:
  assumes "distinct (map int_pk rows)" and "i \<in> set rows" and "int_pk (f i) = int_pk i"
  shows "save (f i) rows = map (\<lambda>r. if r = i then f i else r) rows"
proof -
  have "\<And>r. r \<in> set rows \<Longrightarrow> (int_pk r = int_pk i) = (r = i)"
    using assms by (auto simp: distinct_map inj_on_def)
  then show ?thesis using assms(3) by (simp add: save_def)
qed

lemma move_laggmember_existing:
  assumes "List.find (\<lambda>r. int_interface r = lagg_physnic laggmember) (Interfaces db) = Some i"
    and "unique_pks db"
  shows "move_laggmember blank laggmember db =
     Inr (db\<lparr>Interfaces :=
            map (\<lambda>r. if r = i then i\<lparr>int_options := member_options (lagg_deviceoptions laggmember)\<rparr>
                     else r) (Interfaces db)\<rparr>)"
proof -
  let ?f = "\<lambda>r :: 'a interfaces_scheme. r\<lparr>int_options := member_options (lagg_deviceoptions laggmember)\<rparr>"
  obtain rest where f: "filter (\<lambda>r. int_interface r = lagg_physnic laggmember) (Interfaces db) = i # rest"
    using assms(1) by (auto simp: find_filter_conv split: list.splits)
  have "i \<in> set (Interfaces db)"
    using assms(1) by (auto simp: find_Some_iff)
  then have "save (?f i) (Interfaces db) = map (\<lambda>r. if r = i then ?f i else r) (Interfaces db)"
    using save_distinct [of "Interfaces db" i ?f] assms(2) by (simp add: unique_pks_def)
  with f show ?thesis by (simp add: move_laggmember_def)
qed

text \<open>
  C7, for the body of the loop of \<^verbatim>\<open>move_laggmember_options\<close> and the store as it is when the
  member is reached. Where no \<^verbatim>\<open>Interfaces\<close> row has the member's NIC as its \<^verbatim>\<open>int_interface\<close>
  (and the member's group and the group's interface are found), one row is added: its
  \<^verbatim>\<open>int_interface\<close> is the NIC, its \<^verbatim>\<open>int_name\<close> is \<^verbatim>\<open>"member of "\<close> followed by the
  \<^verbatim>\<open>int_interface\<close> of the owning group's interface, its \<^verbatim>\<open>int_options\<close> are the computed
  options, and its key is new. Where rows match, the first of them gets the computed options.
\<close>

theorem move_laggmember_creates_or_overwrites:
  "(filter (\<lambda>r. int_interface r = lagg_physnic laggmember) (Interfaces db) = [] \<and>
    get_lagg (lagg_interfacegroup laggmember) (LAGGInterface db) = Inr lagg \<and>
    get_interface (lagg_interface lagg) (Interfaces db) = Inr parent
    \<longrightarrow> (\<exists>new. move_laggmember blank laggmember db = Inr (db\<lparr>Interfaces := Interfaces db @ [new]\<rparr>)
          \<and> int_interface new = lagg_physnic laggmember
          \<and> int_name new = ''member of '' @ int_interface parent
          \<and> int_options new = member_options (lagg_deviceoptions laggmember)
          \<and> int_pk new \<notin> int_pk ` set (Interfaces db)))
   \<and> (List.find (\<lambda>r. int_interface r = lagg_physnic laggmember) (Interfaces db) = Some i \<and>
       unique_pks db
    \<longrightarrow> move_laggmember blank laggmember db =
          Inr (db\<lparr>Interfaces :=
                 map (\<lambda>r. if r = i then r\<lparr>int_options := member_options (lagg_deviceoptions laggmember)\<rparr>
                          else r) (Interfaces db)\<rparr>))"
proof (intro conjI impI)
  assume a: "filter (\<lambda>r. int_interface r = lagg_physnic laggmember) (Interfaces db) = [] \<and>
    get_lagg (lagg_interfacegroup laggmember) (LAGGInterface db) = Inr lagg \<and>
    get_interface (lagg_interface lagg) (Interfaces db) = Inr parent"
  let ?new = "\<lparr>int_pk = next_pk (Interfaces db), int_interface = lagg_physnic laggmember,
      int_name = ''member of '' @ int_interface parent,
      int_options = member_options (lagg_deviceoptions laggmember), int_mtu = None, \<dots> = blank\<rparr>"
  have "move_laggmember blank laggmember db = Inr (db\<lparr>Interfaces := Interfaces db @ [?new]\<rparr>)"
    using a by (simp add: move_laggmember_def create_def)
  moreover have "int_pk ?new \<notin> int_pk ` set (Interfaces db)"
    by (auto dest!: next_pk_fresh)
  ultimately show "\<exists>new. move_laggmember blank laggmember db = Inr (db\<lparr>Interfaces := Interfaces db @ [new]\<rparr>)
          \<and> int_interface new = lagg_physnic laggmember
          \<and> int_name new = ''member of '' @ int_interface parent
          \<and> int_options new = member_options (lagg_deviceoptions laggmember)
          \<and> int_pk new \<notin> int_pk ` set (Interfaces db)"
    by (intro exI [of _ ?new]) simp
next
  assume b: "List.find (\<lambda>r. int_interface r = lagg_physnic laggmember) (Interfaces db) = Some i \<and>
       unique_pks db"
  have "map (\<lambda>r. if r = i then i\<lparr>int_options := member_options (lagg_deviceoptions laggmember)\<rparr> else r)
          (Interfaces db)
      = map (\<lambda>r. if r = i then r\<lparr>int_options := member_options (lagg_deviceoptions laggmember)\<rparr> else r)
          (Interfaces db)"
    by (rule map_cong) auto
  with b show "move_laggmember blank laggmember db =
          Inr (db\<lparr>Interfaces :=
                 map (\<lambda>r. if r = i then r\<lparr>int_options := member_options (lagg_deviceoptions laggmember)\<rparr>
                          else r) (Interfaces db)\<rparr>)"
    by (simp add: move_laggmember_existing)
qed

theorem move_laggmember_creates_or_overwrites_witness:
  "(\<exists>new. move_laggmember () member_em1 example_db
             = Inr (example_db\<lparr>Interfaces := [lagg0, em0, new]\<rparr>)
          \<and> int_interface new = ''em1''
          \<and> int_name new = ''member of lagg0''
          \<and> int_options new = ''mtu 1500''
          \<and> int_pk new \<noteq> 1 \<and> int_pk new \<noteq> 2)
   \<and> move_laggmember () member_em0 example_db
       = Inr (example_db\<lparr>Interfaces := [lagg0, em0\<lparr>int_options := ''mtu 9000''\<rparr>]\<rparr>)"
proof -
  have o1: "member_options (lagg_deviceoptions member_em1) = ''mtu 1500''"
    by (simp add: member_em1_def member_options_def replace_def startswith_def endswith_def)
  have o0: "member_options (lagg_deviceoptions member_em0) = ''mtu 9000''"
    by (simp add: member_em0_def member_options_def replace_def startswith_def)
  have h1: "filter (\<lambda>r. int_interface r = lagg_physnic member_em1) (Interfaces example_db) = [] \<and>
    get_lagg (lagg_interfacegroup member_em1) (LAGGInterface example_db)
      = Inr \<lparr>lagg_pk = 1, lagg_interface = 1\<rparr> \<and>
    get_interface (lagg_interface \<lparr>lagg_pk = 1, lagg_interface = 1\<rparr>) (Interfaces example_db) = Inr lagg0"
    by (simp add: example_db_def member_em1_def lagg0_def em0_def get_lagg_def get_interface_def)
  have h0: "List.find (\<lambda>r. int_interface r = lagg_physnic member_em0) (Interfaces example_db) = Some em0
     \<and> unique_pks example_db"
    by (simp add: example_db_def member_em0_def lagg0_def em0_def unique_pks_def)
  have ne: "lagg0 \<noteq> em0" by (simp add: lagg0_def em0_def)
  note t1 = move_laggmember_creates_or_overwrites
    [of member_em1 example_db "\<lparr>lagg_pk = 1, lagg_interface = 1\<rparr>" lagg0 "()" em0, THEN conjunct1, rule_format, OF h1]
  note t0 = move_laggmember_creates_or_overwrites
    [of member_em0 example_db _ _ "()" em0, THEN conjunct2, rule_format, OF h0]
  from t1 obtain new where
    n: "move_laggmember () member_em1 example_db
          = Inr (example_db\<lparr>Interfaces := Interfaces example_db @ [new]\<rparr>)"
       "int_interface new = lagg_physnic member_em1"
       "int_name new = ''member of '' @ int_interface lagg0"
       "int_options new = member_options (lagg_deviceoptions member_em1)"
       "int_pk new \<notin> int_pk ` set (Interfaces example_db)"
    by blast
  have "Interfaces example_db = [lagg0, em0]" by (simp add: example_db_def)
  with n o1 have "move_laggmember () member_em1 example_db
             = Inr (example_db\<lparr>Interfaces := [lagg0, em0, new]\<rparr>)
          \<and> int_interface new = ''em1''
          \<and> int_name new = ''member of lagg0''
          \<and> int_options new = ''mtu 1500''
          \<and> int_pk new \<noteq> 1 \<and> int_pk new \<noteq> 2"
    by (auto simp: member_em1_def lagg0_def em0_def)
  moreover have "move_laggmember () member_em0 example_db
       = Inr (example_db\<lparr>Interfaces := [lagg0, em0\<lparr>int_options := ''mtu 9000''\<rparr>]\<rparr>)"
    using t0 o0 ne by (simp add: example_db_def)
  ultimately show ?thesis by blast
qed

text \<open>
  C10, for the body of the loop and the store as it is when the member is reached. Where a
  row for the member's NIC exists, the step succeeds, the two LAGG tables are as before, the
  \<^verbatim>\<open>Interfaces\<close> table has as many rows as before, every row keeps all its columns but
  \<^verbatim>\<open>int_options\<close> (the key, \<^verbatim>\<open>int_interface\<close>, \<^verbatim>\<open>int_name\<close>, \<^verbatim>\<open>int_mtu\<close> and the columns the
  model does not name), and every row other than the first matching one is unchanged.
\<close>

theorem move_laggmember_existing_frame:
  assumes "List.find (\<lambda>r. int_interface r = lagg_physnic laggmember) (Interfaces db) = Some i"
    and "unique_pks db"
  shows "\<exists>db'. move_laggmember blank laggmember db = Inr db'
           \<and> LAGGInterface db' = LAGGInterface db
           \<and> LAGGInterfaceMembers db' = LAGGInterfaceMembers db
           \<and> length (Interfaces db') = length (Interfaces db)
           \<and> (\<forall>k < length (Interfaces db).
                 Interfaces db' ! k = (Interfaces db ! k)\<lparr>int_options := int_options (Interfaces db' ! k)\<rparr>
                 \<and> int_pk (Interfaces db' ! k) = int_pk (Interfaces db ! k)
                 \<and> int_interface (Interfaces db' ! k) = int_interface (Interfaces db ! k)
                 \<and> int_name (Interfaces db' ! k) = int_name (Interfaces db ! k)
                 \<and> int_mtu (Interfaces db' ! k) = int_mtu (Interfaces db ! k)
                 \<and> interfaces.more (Interfaces db' ! k) = interfaces.more (Interfaces db ! k)
                 \<and> (Interfaces db ! k \<noteq> i \<longrightarrow> Interfaces db' ! k = Interfaces db ! k))"
  using move_laggmember_existing [OF assms, of blank] by simp

theorem move_laggmember_existing_frame_witness:
  "\<exists>db'. move_laggmember () member_em0 example_db = Inr db'
           \<and> LAGGInterface db' = LAGGInterface example_db
           \<and> LAGGInterfaceMembers db' = LAGGInterfaceMembers example_db
           \<and> length (Interfaces db') = 2
           \<and> Interfaces db' ! 0 = lagg0
           \<and> int_pk (Interfaces db' ! 1) = 2
           \<and> int_interface (Interfaces db' ! 1) = ''em0''
           \<and> int_name (Interfaces db' ! 1) = ''em0''
           \<and> int_mtu (Interfaces db' ! 1) = None"
proof -
  have h: "List.find (\<lambda>r. int_interface r = lagg_physnic member_em0) (Interfaces example_db) = Some em0"
    by (simp add: example_db_def member_em0_def lagg0_def em0_def)
  have u: "unique_pks example_db"
    by (simp add: example_db_def lagg0_def em0_def unique_pks_def)
  have rows: "Interfaces example_db = [lagg0, em0]" by (simp add: example_db_def)
  have ne: "lagg0 \<noteq> em0" by (simp add: lagg0_def em0_def)
  from move_laggmember_existing_frame [OF h u, of "()"] obtain db' where
    d: "move_laggmember () member_em0 example_db = Inr db'"
       "LAGGInterface db' = LAGGInterface example_db"
       "LAGGInterfaceMembers db' = LAGGInterfaceMembers example_db"
       "length (Interfaces db') = length (Interfaces example_db)"
    and k: "\<forall>k < length (Interfaces example_db).
                 int_pk (Interfaces db' ! k) = int_pk (Interfaces example_db ! k)
                 \<and> int_interface (Interfaces db' ! k) = int_interface (Interfaces example_db ! k)
                 \<and> int_name (Interfaces db' ! k) = int_name (Interfaces example_db ! k)
                 \<and> int_mtu (Interfaces db' ! k) = int_mtu (Interfaces example_db ! k)
                 \<and> (Interfaces example_db ! k \<noteq> em0 \<longrightarrow> Interfaces db' ! k = Interfaces example_db ! k)"
    by blast
  from k [rule_format, of 0] ne rows have k0: "Interfaces db' ! 0 = lagg0" by simp
  from k [rule_format, of 1] rows have
    "int_pk (Interfaces db' ! 1) = 2 \<and> int_interface (Interfaces db' ! 1) = ''em0''
      \<and> int_name (Interfaces db' ! 1) = ''em0'' \<and> int_mtu (Interfaces db' ! 1) = None"
    by (simp add: em0_def)
  with d k0 rows show ?thesis by (intro exI [of _ db']) simp
qed

section \<open>The matcher\<close>

lemma first_some_append:
  "first_some f (xs @ ys) = (case first_some f xs of Some y \<Rightarrow> Some y | None \<Rightarrow> first_some f ys)"
  by (induction xs) (auto split: option.splits)

lemma first_some_None_iff: "(first_some f xs = None) = (\<forall>x\<in>set xs. f x = None)"
  by (induction xs) (auto split: option.splits)

lemma first_some_SomeD: "first_some f xs = Some y \<Longrightarrow> \<exists>x\<in>set xs. f x = Some y"
  by (induction xs) (auto split: option.splits)

lemma first_some_last:
  "f x = Some y \<Longrightarrow> \<forall>b\<in>set bs. f b = None \<Longrightarrow> first_some f (rev (as @ x # bs)) = Some y"
  by (simp add: first_some_append first_some_None_iff [THEN iffD2])

lemma is_digit_word: "is_digit c \<Longrightarrow> is_word c"
  by (auto simp: is_digit_def is_word_def Let_def)

lemma digit_run:
  assumes "i < length (takeWhile is_digit (drop p s))"
  shows "p + i < length s \<and> is_digit (s ! (p + i))"
proof -
  let ?r = "takeWhile is_digit (drop p s)"
  have "length ?r \<le> length (drop p s)" by (rule length_takeWhile_le)
  with assms have l: "p + i < length s" by simp
  have "?r ! i \<in> set ?r" using assms by simp
  then have "is_digit (?r ! i)" by (auto dest: set_takeWhileD)
  moreover have "?r ! i = drop p s ! i" using assms by (rule takeWhile_nth)
  ultimately show ?thesis using l by simp
qed

lemma no_boundary_in_run:
  assumes "1 \<le> j" and "j < length (takeWhile is_digit (drop p s))"
  shows "\<not> word_boundary s (p + j)"
proof -
  have a: "p + j < length s \<and> is_digit (s ! (p + j))" using assms(2) by (rule digit_run)
  have "j - 1 < length (takeWhile is_digit (drop p s))" using assms by simp
  then have "is_digit (s ! (p + (j - 1)))" using digit_run by blast
  then have b: "is_digit (s ! (p + j - 1))" using assms(1) by simp
  from a b assms(1) show ?thesis by (simp add: word_boundary_def is_digit_word)
qed

lemma match_digits_eq:
  "match_digits s p =
     (let n = length (takeWhile is_digit (drop p s))
      in if 0 < n \<and> word_boundary s (p + n) then Some (p + n) else None)"
proof -
  let ?n = "length (takeWhile is_digit (drop p s))"
  show ?thesis
  proof (cases "?n = 0")
    case True
    then show ?thesis by (simp add: match_digits_def)
  next
    case False
    have none: "List.find (word_boundary s) (map (\<lambda>j. p + j) (rev [1..<?n])) = None"
    proof -
      have "\<not> word_boundary s x" if "x \<in> set (map (\<lambda>j. p + j) (rev [1..<?n]))" for x
      proof -
        from that have "1 \<le> x - p" "x - p < ?n" "p + (x - p) = x" by auto
        then show ?thesis using no_boundary_in_run [of "x - p" p s] by simp
      qed
      then show ?thesis unfolding find_None_iff by blast
    qed
    from False have "1 \<le> ?n" by (simp add: Suc_le_eq)
    then have "rev [1..<Suc ?n] = ?n # rev [1..<?n]" by simp
    then have "match_digits s p =
        List.find (word_boundary s) ((p + ?n) # map (\<lambda>j. p + j) (rev [1..<?n]))"
      by (simp add: match_digits_def Let_def del: upt_Suc)
    with none False show ?thesis by (simp add: Let_def)
  qed
qed


lemma first_some_rev_upt:
  "first_some f (rev [a..<b]) = Some y \<Longrightarrow>
     \<exists>k. a \<le> k \<and> k < b \<and> f k = Some y \<and> (\<forall>k'. k < k' \<and> k' < b \<longrightarrow> f k' = None)"
proof (induction b)
  case 0
  then show ?case by simp
next
  case (Suc b)
  show ?case
  proof (cases "a \<le> b")
    case False
    with Suc.prems show ?thesis by simp
  next
    case True
    show ?thesis
    proof (cases "f b")
      case (Some y')
      with True Suc.prems have "f b = Some y" by simp
      with True show ?thesis by (intro exI [of _ b]) auto
    next
      case None
      with True Suc.prems have "first_some f (rev [a..<b]) = Some y" by simp
      from Suc.IH [OF this] obtain k where
        k: "a \<le> k" "k < b" "f k = Some y" "\<forall>k'. k < k' \<and> k' < b \<longrightarrow> f k' = None"
        by blast
      have "\<forall>k'. k < k' \<and> k' < Suc b \<longrightarrow> f k' = None"
        using k(4) None by (auto simp: less_Suc_eq)
      with k show ?thesis by (intro exI [of _ k]) auto
    qed
  qed
qed

lemma first_some_rev_upt_last:
  "a \<le> k \<Longrightarrow> k < b \<Longrightarrow> f k = Some y \<Longrightarrow> (\<forall>k'. k < k' \<and> k' < b \<longrightarrow> f k' = None) \<Longrightarrow>
     first_some f (rev [a..<b]) = Some y"
proof (induction b)
  case 0
  then show ?case by simp
next
  case (Suc b)
  show ?case
  proof (cases "k = b")
    case True
    with Suc.prems show ?thesis by simp
  next
    case False
    with Suc.prems have "k < b" "f b = None" by auto
    with Suc show ?thesis by simp
  qed
qed

lemma match_token_SomeD:
  assumes "match_token s k = Some e"
  shows "\<exists>ds. s = take k s @ ''mtu '' @ ds @ drop e s \<and> ds \<noteq> [] \<and> (\<forall>d\<in>set ds. is_digit d)
           \<and> ds = takeWhile is_digit (drop (k + 4) s) \<and> e = k + 4 + length ds \<and> e \<le> length s
           \<and> k + 4 \<le> length s
           \<and> (k = 0 \<or> \<not> is_word (s ! (k - 1))) \<and> (e = length s \<or> \<not> is_word (s ! e))"
proof -
  let ?ds = "takeWhile is_digit (drop (k + 4) s)"
  have four: "length ''mtu '' = 4" by simp
  from assms have wb: "word_boundary s k" and sw: "startswith (drop k s) ''mtu ''"
    and md: "match_digits s (k + 4) = Some e"
    by (auto simp: match_token_def split: if_splits)
  from sw have mtu: "take 4 (drop k s) = ''mtu ''"
    unfolding startswith_def four .
  from md have n: "0 < length ?ds" and wbe: "word_boundary s (k + 4 + length ?ds)"
    and e: "e = k + 4 + length ?ds"
    by (auto simp: match_digits_eq Let_def split: if_splits)
  have len4: "k + 4 \<le> length s"
  proof (rule ccontr)
    assume "\<not> k + 4 \<le> length s"
    then have "length (take 4 (drop k s)) < 4" by simp
    with mtu show False by simp
  qed
  have "length ?ds \<le> length (drop (k + 4) s)" by (rule length_takeWhile_le)
  then have ele: "e \<le> length s" using e len4 by simp
  have "drop e s = drop (length ?ds) (drop (k + 4) s)" using e by (simp add: add.commute)
  also have "\<dots> = dropWhile is_digit (drop (k + 4) s)" by (simp add: dropWhile_eq_drop)
  finally have de: "drop e s = dropWhile is_digit (drop (k + 4) s)" .
  have "drop k s = take 4 (drop k s) @ drop 4 (drop k s)"
    by (rule append_take_drop_id [symmetric])
  also have "drop 4 (drop k s) = drop (k + 4) s" by (simp add: add.commute)
  also have "drop (k + 4) s = ?ds @ drop e s" using de by simp
  finally have "drop k s = ''mtu '' @ ?ds @ drop e s" using mtu by simp
  then have "take k s @ drop k s = take k s @ ''mtu '' @ ?ds @ drop e s" by simp
  then have split: "s = take k s @ ''mtu '' @ ?ds @ drop e s" by simp
  have "s ! k = (drop k s) ! 0" using len4 by simp
  also have "\<dots> = (take 4 (drop k s)) ! 0" by simp
  also have "\<dots> = CHR ''m''" using mtu by simp
  finally have "is_word (s ! k)" by (simp add: is_word_def)
  with wb len4 have left: "k = 0 \<or> \<not> is_word (s ! (k - 1))"
    by (auto simp: word_boundary_def)
  have "length ?ds - 1 < length ?ds" using n by simp
  then have "is_digit (s ! (k + 4 + (length ?ds - 1)))" using digit_run by blast
  then have "is_word (s ! (e - 1))" using e n by (simp add: is_digit_word)
  with wbe e ele have right: "e = length s \<or> \<not> is_word (s ! e)"
    by (auto simp: word_boundary_def)
  have "\<forall>d\<in>set ?ds. is_digit d" by (auto dest: set_takeWhileD)
  with split n e ele len4 left right show ?thesis by blast
qed


lemma first_some_upt:
  "first_some f [a..<b] = Some y \<Longrightarrow> \<exists>k. a \<le> k \<and> k < b \<and> f k = Some y"
  by (drule first_some_SomeD) auto

lemma match_at_SomeD:
  assumes "match_at s st = Some reg"
  shows "\<exists>k e. st \<le> k \<and> k \<le> st + length (takeWhile (\<lambda>c. c \<noteq> newline) (drop st s))
           \<and> match_token s k = Some e
           \<and> reg = \<lparr>group_before = take (k - st) (drop st s),
                     group_mtu = take (e - (k + 4)) (drop (k + 4) s),
                     group_after = takeWhile (\<lambda>c. c \<noteq> newline) (drop e s)\<rparr>"
proof -
  let ?eol = "st + length (takeWhile (\<lambda>c. c \<noteq> newline) (drop st s))"
  let ?f = "\<lambda>k. case match_token s k of
                   None \<Rightarrow> None
                 | Some e \<Rightarrow>
                     Some \<lparr>group_before = take (k - st) (drop st s),
                           group_mtu = take (e - (k + 4)) (drop (k + 4) s),
                           group_after = takeWhile (\<lambda>c. c \<noteq> newline) (drop e s)\<rparr>"
  from assms have "first_some ?f (rev [st..<Suc ?eol]) = Some reg"
    by (simp add: match_at_def Let_def del: upt_Suc)
  from first_some_rev_upt [OF this] obtain k where
    k: "st \<le> k" "k < Suc ?eol" "?f k = Some reg" by blast
  from k(3) obtain e where "match_token s k = Some e"
    and "reg = \<lparr>group_before = take (k - st) (drop st s),
                     group_mtu = take (e - (k + 4)) (drop (k + 4) s),
                     group_after = takeWhile (\<lambda>c. c \<noteq> newline) (drop e s)\<rparr>"
    by (auto split: option.splits)
  with k(1,2) show ?thesis by (intro exI [of _ k] exI [of _ e]) simp
qed

lemma first_some_not_None: "x \<in> set xs \<Longrightarrow> f x \<noteq> None \<Longrightarrow> first_some f xs \<noteq> None"
  by (simp add: first_some_None_iff) blast

lemma match_at_token:
  assumes "match_token s k = Some e"
  shows "match_at s k \<noteq> None"
proof -
  let ?eol = "k + length (takeWhile (\<lambda>c. c \<noteq> newline) (drop k s))"
  let ?f = "\<lambda>j. case match_token s j of
                   None \<Rightarrow> None
                 | Some e \<Rightarrow>
                     Some \<lparr>group_before = take (j - k) (drop k s),
                           group_mtu = take (e - (j + 4)) (drop (j + 4) s),
                           group_after = takeWhile (\<lambda>c. c \<noteq> newline) (drop e s)\<rparr>"
  have "k \<in> set (rev [k..<Suc ?eol])" by simp
  moreover have "?f k \<noteq> None" using assms by simp
  ultimately have "first_some ?f (rev [k..<Suc ?eol]) \<noteq> None"
    by (rule first_some_not_None)
  then show ?thesis by (simp add: match_at_def Let_def del: upt_Suc)
qed

lemma RE_MTU_search_SomeD:
  assumes "RE_MTU_search s = Some reg"
  shows "\<exists>st k e. st \<le> k \<and> k \<le> st + length (takeWhile (\<lambda>c. c \<noteq> newline) (drop st s))
           \<and> match_token s k = Some e
           \<and> reg = \<lparr>group_before = take (k - st) (drop st s),
                     group_mtu = take (e - (k + 4)) (drop (k + 4) s),
                     group_after = takeWhile (\<lambda>c. c \<noteq> newline) (drop e s)\<rparr>"
proof -
  from assms have "first_some (match_at s) [0..<Suc (length s)] = Some reg"
    by (simp add: RE_MTU_search_def del: upt_Suc)
  from first_some_upt [OF this] obtain st where "match_at s st = Some reg" by blast
  from match_at_SomeD [OF this] show ?thesis by blast
qed

lemma token_positions_iff:
  "(k \<in> set (token_positions s)) = (match_token s k \<noteq> None)"
proof
  assume "k \<in> set (token_positions s)"
  then show "match_token s k \<noteq> None" by (simp add: token_positions_def)
next
  assume a: "match_token s k \<noteq> None"
  then obtain e where "match_token s k = Some e" by blast
  from match_token_SomeD [OF this] have "k + 4 \<le> length s" by blast
  with a show "k \<in> set (token_positions s)" by (simp add: token_positions_def)
qed

lemma has_mtu_token_iff: "has_mtu_token s = (\<exists>k. match_token s k \<noteq> None)"
proof -
  have "has_mtu_token s = (\<exists>k. k \<in> set (token_positions s))"
    unfolding has_mtu_token_def by (cases "token_positions s") auto
  then show ?thesis by (simp add: token_positions_iff)
qed

lemma RE_MTU_search_None_iff: "(RE_MTU_search s = None) = (\<not> has_mtu_token s)"
proof
  assume n: "RE_MTU_search s = None"
  show "\<not> has_mtu_token s"
  proof
    assume "has_mtu_token s"
    then obtain k e where t: "match_token s k = Some e" by (auto simp: has_mtu_token_iff)
    from match_token_SomeD [OF t] have "k < Suc (length s)" by auto
    then have "k \<in> set [0..<Suc (length s)]" by (simp del: upt_Suc)
    moreover from n have "\<forall>st\<in>set [0..<Suc (length s)]. match_at s st = None"
      unfolding RE_MTU_search_def first_some_None_iff .
    ultimately have "match_at s k = None" by blast
    with match_at_token [OF t] show False by simp
  qed
next
  assume n: "\<not> has_mtu_token s"
  show "RE_MTU_search s = None"
  proof (cases "RE_MTU_search s")
    case None
    then show ?thesis .
  next
    case (Some reg)
    from RE_MTU_search_SomeD [OF this] obtain k e where "match_token s k = Some e" by blast
    with n show ?thesis by (auto simp: has_mtu_token_iff)
  qed
qed


lemma RE_MTU_search_groups:
  assumes "RE_MTU_search s = Some reg"
  shows "\<exists>p q. s = p @ group_before reg @ ''mtu '' @ group_mtu reg @ group_after reg @ q"
    and "group_mtu reg \<noteq> []"
    and "\<forall>d\<in>set (group_mtu reg). is_digit d"
    and "group_before reg = [] \<or> \<not> is_word (last (group_before reg))"
    and "group_after reg = [] \<or> \<not> is_word (hd (group_after reg))"
    and "newline \<notin> set (group_before reg)"
    and "newline \<notin> set (group_after reg)"
proof -
  let ?nl = "\<lambda>c. c \<noteq> newline"
  from RE_MTU_search_SomeD [OF assms] obtain st k e where
    stk: "st \<le> k" and keol: "k \<le> st + length (takeWhile ?nl (drop st s))"
    and tok: "match_token s k = Some e"
    and reg: "reg = \<lparr>group_before = take (k - st) (drop st s),
                     group_mtu = take (e - (k + 4)) (drop (k + 4) s),
                     group_after = takeWhile ?nl (drop e s)\<rparr>"
    by blast
  from match_token_SomeD [OF tok] obtain ds where
    split: "s = take k s @ ''mtu '' @ ds @ drop e s" and ne: "ds \<noteq> []"
    and dig: "\<forall>d\<in>set ds. is_digit d" and ds: "ds = takeWhile is_digit (drop (k + 4) s)"
    and e: "e = k + 4 + length ds" and ele: "e \<le> length s" and kle: "k + 4 \<le> length s"
    and left: "k = 0 \<or> \<not> is_word (s ! (k - 1))" and right: "e = length s \<or> \<not> is_word (s ! e)"
    by blast
  have "take (e - (k + 4)) (drop (k + 4) s) = take (length ds) (drop (k + 4) s)"
    using e by simp
  also have "\<dots> = ds" unfolding ds by (rule takeWhile_eq_take [symmetric])
  finally have mtu: "group_mtu reg = ds" using reg by simp
  have before: "group_before reg = take (k - st) (drop st s)" using reg by simp
  have after: "group_after reg = takeWhile ?nl (drop e s)" using reg by simp
  have "take k s = take (st + (k - st)) s" using stk by simp
  also have "\<dots> = take st s @ take (k - st) (drop st s)" by (rule take_add)
  finally have tk: "take k s = take st s @ group_before reg" using before by simp
  have "drop e s = takeWhile ?nl (drop e s) @ dropWhile ?nl (drop e s)" by simp
  then have de: "drop e s = group_after reg @ dropWhile ?nl (drop e s)" using after by simp
  have "s = (take st s @ group_before reg) @ ''mtu '' @ group_mtu reg
              @ (group_after reg @ dropWhile ?nl (drop e s))"
    using split tk de mtu by metis
  then have "s = take st s @ group_before reg @ ''mtu '' @ group_mtu reg
              @ group_after reg @ dropWhile ?nl (drop e s)"
    by simp
  then show "\<exists>p q. s = p @ group_before reg @ ''mtu '' @ group_mtu reg @ group_after reg @ q"
    by blast
  show "group_mtu reg \<noteq> []" using mtu ne by simp
  show "\<forall>d\<in>set (group_mtu reg). is_digit d" using mtu dig by simp
  show "group_before reg = [] \<or> \<not> is_word (last (group_before reg))"
  proof (cases "k = st")
    case True
    then show ?thesis using before by simp
  next
    case False
    with stk have lt: "st < k" by simp
    have len: "length (take (k - st) (drop st s)) = k - st" using kle by simp
    have "last (take (k - st) (drop st s)) = take (k - st) (drop st s) ! (k - st - 1)"
      using lt len by (simp add: last_conv_nth)
    also have "\<dots> = drop st s ! (k - st - 1)" using lt by simp
    also have "\<dots> = s ! (st + (k - st - 1))" using kle lt by simp
    also have "st + (k - st - 1) = k - 1" using lt by simp
    finally have "last (group_before reg) = s ! (k - 1)" using before by simp
    with left lt show ?thesis by simp
  qed
  show "group_after reg = [] \<or> \<not> is_word (hd (group_after reg))"
  proof (cases "drop e s")
    case Nil
    then show ?thesis using after by simp
  next
    case (Cons c cs)
    then have lt: "e < length s" by (cases "e < length s") auto
    then have "hd (drop e s) = s ! e" by (rule hd_drop_conv_nth)
    with Cons have "c = s ! e" by simp
    with right lt have "\<not> is_word c" by simp
    then show ?thesis using after Cons by (cases "c = newline") auto
  qed
  have "length (group_before reg) \<le> length (takeWhile ?nl (drop st s))"
    using before keol by simp
  moreover have "take (k - st) (drop st s) = take (k - st) (takeWhile ?nl (drop st s))"
    using keol
    by (metis (no_types, lifting) add_diff_cancel_left' diff_le_mono take_all_iff
        takeWhile_eq_take take_take min.absorb1 length_takeWhile_le min.commute)
  ultimately have "set (group_before reg) \<subseteq> set (takeWhile ?nl (drop st s))"
    using before by (metis set_take_subset)
  then show "newline \<notin> set (group_before reg)" by (auto dest: set_takeWhileD)
  show "newline \<notin> set (group_after reg)" unfolding after by (auto dest: set_takeWhileD)
qed

section \<open>The first loop of \<^verbatim>\<open>move_mtu_from_options\<close>\<close>

lemma extracted_pk: "int_pk (extracted i) = int_pk i"
  by (simp add: extracted_def extract_mtu_def split: option.splits)

lemma extract_step_map:
  assumes "\<forall>r\<in>set t. int_pk r = int_pk x \<longrightarrow> r = x"
  shows "extract_step x t = map (\<lambda>r. if r = x then extracted x else r) t"
proof (cases "extract_mtu x")
  case None
  then have "extracted x = x" by (simp add: extracted_def)
  then have "map (\<lambda>r. if r = x then extracted x else r) t = map (\<lambda>r. r) t"
    by (intro map_cong) auto
  with None show ?thesis by (simp add: extract_step_def)
next
  case (Some x')
  then have e: "extracted x = x'" by (simp add: extracted_def)
  with extracted_pk [of x] have "int_pk x' = int_pk x" by simp
  then have "save x' t = map (\<lambda>r. if r = x then x' else r) t"
    unfolding save_def using assms by (intro map_cong) auto
  with Some e show ?thesis by (simp add: extract_step_def)
qed

lemma fold_extract_step:
  assumes "distinct (map int_pk xs)"
    and "\<forall>r\<in>set t. \<forall>i\<in>set xs. int_pk r = int_pk i \<longrightarrow> r = i"
  shows "fold extract_step xs t = map (\<lambda>r. if r \<in> set xs then extracted r else r) t"
  using assms
proof (induction xs arbitrary: t)
  case Nil
  then show ?case by simp
next
  case (Cons x xs)
  let ?t' = "map (\<lambda>r. if r = x then extracted x else r) t"
  have step: "extract_step x t = ?t'"
    using Cons.prems(2) by (intro extract_step_map) auto
  from Cons.prems(1) have nx: "int_pk x \<notin> int_pk ` set xs" by simp
  have fresh: "int_pk i \<noteq> int_pk x" if "i \<in> set xs" for i
    using that nx by (metis imageI)
  have inv: "\<forall>r\<in>set ?t'. \<forall>i\<in>set xs. int_pk r = int_pk i \<longrightarrow> r = i"
  proof (intro ballI impI)
    fix r' i
    assume r': "r' \<in> set ?t'" and i: "i \<in> set xs" and pk: "int_pk r' = int_pk i"
    from r' obtain r where r: "r \<in> set t" "r' = (if r = x then extracted x else r)"
      by (auto simp only: set_map)
    show "r' = i"
    proof (cases "r = x")
      case True
      with r(2) pk have "int_pk i = int_pk x" by (simp add: extracted_pk)
      with fresh [OF i] show ?thesis by simp
    next
      case False
      with r(2) have "r' = r" by simp
      moreover have "i \<in> set (x # xs)" using i by simp
      ultimately show ?thesis using Cons.prems(2) r(1) pk by blast
    qed
  qed
  have nin: "extracted x \<notin> set xs"
  proof
    assume "extracted x \<in> set xs"
    from fresh [OF this] show False by (simp add: extracted_pk)
  qed
  have "map (\<lambda>r. if r \<in> set xs then extracted r else r) ?t'
      = map (\<lambda>r. if r \<in> set (x # xs) then extracted r else r) t"
    unfolding map_map by (rule map_cong [OF refl]) (simp add: nin)
  moreover have "fold extract_step xs ?t' = map (\<lambda>r. if r \<in> set xs then extracted r else r) ?t'"
  proof (rule Cons.IH)
    show "distinct (map int_pk xs)" using Cons.prems(1) by simp
    show "\<forall>r\<in>set ?t'. \<forall>i\<in>set xs. int_pk r = int_pk i \<longrightarrow> r = i" by (rule inv)
  qed
  ultimately show ?case using step by simp
qed

lemma extract_loop:
  assumes "distinct (map int_pk rows)"
  shows "fold extract_step rows rows = map extracted rows"
proof -
  have "\<forall>r\<in>set rows. \<forall>i\<in>set rows. int_pk r = int_pk i \<longrightarrow> r = i"
    using assms by (auto simp: distinct_map inj_on_def)
  with assms have "fold extract_step rows rows = map (\<lambda>r. if r \<in> set rows then extracted r else r) rows"
    by (rule fold_extract_step)
  also have "\<dots> = map extracted rows" by (intro map_cong) auto
  finally show ?thesis .
qed

section \<open>The extraction of the MTU from one row\<close>

lemma search_foo: "RE_MTU_search ''foo mtu 9000 bar''
    = Some \<lparr>group_before = ''foo '', group_mtu = ''9000'', group_after = '' bar''\<rparr>"
  by code_simp

lemma int_str_9000: "int_str ''9000'' = 9000"
  by (simp add: int_str_def)

lemma sub_spaces_foo_bar: "sub_spaces (''foo '' @ '' bar'') = ''foo bar''"
  by (simp add: is_space_def)

text \<open>
  C5. For a row \<open>i\<close> whose non-empty \<^verbatim>\<open>int_options\<close> match \<^verbatim>\<open>RE_MTU\<close> with the groups \<open>reg\<close>, the
  instance the first loop saves is \<open>i\<close> with \<^verbatim>\<open>int_mtu\<close> the number written by the digits of
  the group \<^verbatim>\<open>mtu\<close> and \<^verbatim>\<open>int_options\<close> the groups \<^verbatim>\<open>before\<close> and \<^verbatim>\<open>after\<close> joined, with every
  run of two or more whitespace characters replaced by one space. The groups lie in the
  options as \<^verbatim>\<open>before\<close>, \<^verbatim>\<open>"mtu "\<close>, the digits, \<^verbatim>\<open>after\<close>, and the digits are one or more
  decimal digits. With unique keys the row of the table is that instance after the loop.
  For the options \<^verbatim>\<open>"foo mtu 9000 bar"\<close> the result has \<^verbatim>\<open>int_mtu\<close> 9000 and the options
  \<^verbatim>\<open>"foo bar"\<close>.
\<close>

theorem extract_mtu_matched:
  "(int_options i \<noteq> [] \<and> RE_MTU_search (int_options i) = Some reg \<longrightarrow>
      extract_mtu i = Some (i\<lparr>int_mtu := Some (int_str (group_mtu reg)),
                              int_options := sub_spaces (group_before reg @ group_after reg)\<rparr>)
      \<and> (\<exists>p q. int_options i = p @ group_before reg @ ''mtu '' @ group_mtu reg @ group_after reg @ q)
      \<and> group_mtu reg \<noteq> [] \<and> (\<forall>d\<in>set (group_mtu reg). is_digit d)
      \<and> (unique_pks db \<and> k < length (Interfaces db) \<and> Interfaces db ! k = i \<longrightarrow>
           fold extract_step (Interfaces db) (Interfaces db) ! k
             = i\<lparr>int_mtu := Some (int_str (group_mtu reg)),
                  int_options := sub_spaces (group_before reg @ group_after reg)\<rparr>))
   \<and> (int_options i = ''foo mtu 9000 bar'' \<longrightarrow>
        extract_mtu i = Some (i\<lparr>int_mtu := Some 9000, int_options := ''foo bar''\<rparr>))"
proof (intro conjI impI)
  assume a: "int_options i \<noteq> [] \<and> RE_MTU_search (int_options i) = Some reg"
  then show e: "extract_mtu i = Some (i\<lparr>int_mtu := Some (int_str (group_mtu reg)),
                              int_options := sub_spaces (group_before reg @ group_after reg)\<rparr>)"
    by (simp add: extract_mtu_def)
  from a have s: "RE_MTU_search (int_options i) = Some reg" by simp
  from RE_MTU_search_groups(1) [OF s]
  show "\<exists>p q. int_options i = p @ group_before reg @ ''mtu '' @ group_mtu reg @ group_after reg @ q" .
  from RE_MTU_search_groups(2) [OF s] show "group_mtu reg \<noteq> []" .
  from RE_MTU_search_groups(3) [OF s] show "\<forall>d\<in>set (group_mtu reg). is_digit d" .
  assume b: "unique_pks db \<and> k < length (Interfaces db) \<and> Interfaces db ! k = i"
  then have "fold extract_step (Interfaces db) (Interfaces db) = map extracted (Interfaces db)"
    by (simp add: extract_loop unique_pks_def)
  with b e show "fold extract_step (Interfaces db) (Interfaces db) ! k
             = i\<lparr>int_mtu := Some (int_str (group_mtu reg)),
                  int_options := sub_spaces (group_before reg @ group_after reg)\<rparr>"
    by (simp add: extracted_def)
next
  assume "int_options i = ''foo mtu 9000 bar''"
  then show "extract_mtu i = Some (i\<lparr>int_mtu := Some 9000, int_options := ''foo bar''\<rparr>)"
    using search_foo int_str_9000 sub_spaces_foo_bar by (simp add: extract_mtu_def)
qed

theorem extract_mtu_matched_witness:
  "extract_mtu (em0\<lparr>int_options := ''foo mtu 9000 bar''\<rparr>)
     = Some (em0\<lparr>int_mtu := Some 9000, int_options := ''foo bar''\<rparr>)
   \<and> fold extract_step [lagg0, em0\<lparr>int_options := ''foo mtu 9000 bar''\<rparr>]
        [lagg0, em0\<lparr>int_options := ''foo mtu 9000 bar''\<rparr>] ! 1
      = em0\<lparr>int_mtu := Some 9000, int_options := ''foo bar''\<rparr>"
proof -
  let ?i = "em0\<lparr>int_options := ''foo mtu 9000 bar''\<rparr>"
  let ?db = "example_db\<lparr>Interfaces := [lagg0, ?i]\<rparr>"
  let ?reg = "\<lparr>group_before = ''foo '', group_mtu = ''9000'', group_after = '' bar''\<rparr>"
  have h1: "int_options ?i \<noteq> [] \<and> RE_MTU_search (int_options ?i) = Some ?reg"
    using search_foo by simp
  have h2: "unique_pks ?db \<and> 1 < length (Interfaces ?db) \<and> Interfaces ?db ! 1 = ?i"
    by (simp add: unique_pks_def lagg0_def em0_def)
  have h3: "int_options ?i = ''foo mtu 9000 bar''" by simp
  note t = extract_mtu_matched [of ?i ?reg ?db 1]
  from t h3 have "extract_mtu ?i = Some (?i\<lparr>int_mtu := Some 9000, int_options := ''foo bar''\<rparr>)"
    by blast
  moreover from t h1 h2 have "fold extract_step (Interfaces ?db) (Interfaces ?db) ! 1
             = ?i\<lparr>int_mtu := Some (int_str (group_mtu ?reg)),
                  int_options := sub_spaces (group_before ?reg @ group_after ?reg)\<rparr>"
    by blast
  ultimately show ?thesis using int_str_9000 sub_spaces_foo_bar by simp
qed

text \<open>
  C8. For a row whose \<^verbatim>\<open>int_options\<close> hold no standalone \<^verbatim>\<open>mtu <N>\<close> token, the first loop
  saves nothing: the row, with its \<^verbatim>\<open>int_mtu\<close> and its \<^verbatim>\<open>int_options\<close>, is as before, also as a
  row of the table after the loop (keys unique). The empty string holds no token.
\<close>

theorem extract_mtu_no_token:
  assumes "\<not> has_mtu_token (int_options i)"
  shows "extract_mtu i = None \<and> extracted i = i
     \<and> (unique_pks db \<and> k < length (Interfaces db) \<and> Interfaces db ! k = i \<longrightarrow>
           fold extract_step (Interfaces db) (Interfaces db) ! k = i)
     \<and> \<not> has_mtu_token []"
proof -
  from assms have "RE_MTU_search (int_options i) = None" by (simp add: RE_MTU_search_None_iff)
  then have n: "extract_mtu i = None" by (simp add: extract_mtu_def)
  then have x: "extracted i = i" by (simp add: extracted_def)
  have "fold extract_step (Interfaces db) (Interfaces db) ! k = i"
    if "unique_pks db \<and> k < length (Interfaces db) \<and> Interfaces db ! k = i"
  proof -
    from that have "fold extract_step (Interfaces db) (Interfaces db) = map extracted (Interfaces db)"
      by (simp add: extract_loop unique_pks_def)
    with that x show ?thesis by simp
  qed
  moreover have "\<not> has_mtu_token []" by (simp add: has_mtu_token_def token_positions_def)
  ultimately show ?thesis using n x by blast
qed

theorem extract_mtu_no_token_witness:
  "\<not> has_mtu_token (int_options em0) \<and> extract_mtu em0 = None
   \<and> \<not> has_mtu_token (int_options lagg0) \<and> extract_mtu lagg0 = None
   \<and> fold extract_step [lagg0, em0] [lagg0, em0] = [lagg0, em0]"
proof -
  have h0: "\<not> has_mtu_token (int_options em0)"
    by (simp add: em0_def has_mtu_token_def token_positions_def match_token_def startswith_def)
  have h1: "\<not> has_mtu_token (int_options lagg0)"
    by (simp add: lagg0_def has_mtu_token_def token_positions_def)
  have u: "unique_pks example_db" by (simp add: unique_pks_def example_db_def lagg0_def em0_def)
  have r: "Interfaces example_db = [lagg0, em0]" by (simp add: example_db_def)
  from extract_mtu_no_token [OF h0, of example_db 1] u r
  have a: "extract_mtu em0 = None" "fold extract_step [lagg0, em0] [lagg0, em0] ! 1 = em0"
    by simp_all
  from extract_mtu_no_token [OF h1, of example_db 0] u r
  have b: "extract_mtu lagg0 = None" "fold extract_step [lagg0, em0] [lagg0, em0] ! 0 = lagg0"
    by simp_all
  have "length (fold extract_step [lagg0, em0] [lagg0, em0]) = 2"
    using a(1) b(1) by (simp add: extract_step_def)
  with a(2) b(2) have "fold extract_step [lagg0, em0] [lagg0, em0] = [lagg0, em0]"
    by (intro nth_equalityI) (auto simp: less_Suc_eq numeral_2_eq_2)
  with h0 h1 a(1) b(1) show ?thesis by blast
qed

section \<open>Several tokens in one row\<close>

lemma contains_startswith: "startswith s p \<Longrightarrow> contains s p"
  by (cases s) (auto simp: startswith_def)

lemma contains_append_left: "contains s p \<Longrightarrow> contains (u @ s) p"
proof (induction u)
  case Nil
  then show ?case by simp
next
  case (Cons c u)
  then show ?case by simp
qed

lemma contains_middle: "contains (u @ p @ v) p"
proof -
  have "startswith (p @ v) p" by (simp add: startswith_def)
  then show ?thesis by (intro contains_append_left contains_startswith)
qed

lemma sub_spaces_nonspace: "\<forall>d\<in>set ds. \<not> is_space d \<Longrightarrow> sub_spaces (ds @ y) = ds @ sub_spaces y"
  by (induction ds) auto

lemma is_digit_not_space: "is_digit d \<Longrightarrow> \<not> is_space d"
  by (auto simp: is_digit_def is_space_def Let_def)

lemma sub_spaces_token:
  assumes "ds \<noteq> []" and "\<forall>d\<in>set ds. is_digit d"
  shows "sub_spaces (''mtu '' @ ds @ y) = ''mtu '' @ ds @ sub_spaces y"
proof -
  from assms obtain d ds' where ds: "ds = d # ds'" and d: "\<not> is_space d"
    by (cases ds) (auto simp: is_digit_not_space)
  have ns: "\<forall>d\<in>set ds. \<not> is_space d" using assms(2) by (auto simp: is_digit_not_space)
  have "sub_spaces (CHR '' '' # ds @ y) = CHR '' '' # sub_spaces (ds @ y)"
    using ds d by simp
  then have "sub_spaces (''mtu '' @ ds @ y) = ''mtu '' @ sub_spaces (ds @ y)"
    by (simp add: is_space_def)
  with ns show ?thesis by (simp add: sub_spaces_nonspace)
qed

lemma sub_spaces_append:
  "\<not> is_space a \<Longrightarrow> sub_spaces (x @ a # t) = sub_spaces x @ sub_spaces (a # t)"
proof (induction x rule: sub_spaces.induct)
  case 1
  show ?case by simp
next
  case (2 c cs)
  show ?case
  proof (cases "is_space c \<and> (case cs of [] \<Rightarrow> False | d # _ \<Rightarrow> is_space d)")
    case True
    then obtain d cs' where cs: "cs = d # cs'" and d: "is_space d" and c: "is_space c"
      by (cases cs) auto
    have dw: "dropWhile is_space (cs @ a # t) = dropWhile is_space cs @ a # t"
      using 2(3) by (simp add: dropWhile_append)
    have "sub_spaces ((c # cs) @ a # t) = CHR '' '' # sub_spaces (dropWhile is_space (cs @ a # t))"
      using cs d c by simp
    also have "\<dots> = CHR '' '' # sub_spaces (dropWhile is_space cs) @ sub_spaces (a # t)"
      using 2(1) [OF True 2(3)] dw by simp
    also have "\<dots> = sub_spaces (c # cs) @ sub_spaces (a # t)"
      using True by simp
    finally show ?thesis .
  next
    case False
    then have "\<not> (is_space c \<and> (case cs @ a # t of [] \<Rightarrow> False | d # _ \<Rightarrow> is_space d))"
      using 2(3) by (cases cs) auto
    then have l: "sub_spaces ((c # cs) @ a # t) = c # sub_spaces (cs @ a # t)"
      by (simp only: append_Cons sub_spaces.simps if_False)
    have r: "sub_spaces (c # cs) = c # sub_spaces cs"
      using False by (simp only: sub_spaces.simps if_False)
    note ih = 2(2) [OF False 2(3)]
    have "sub_spaces ((c # cs) @ a # t) = c # (sub_spaces cs @ sub_spaces (a # t))"
      by (simp only: l ih)
    also have "\<dots> = sub_spaces (c # cs) @ sub_spaces (a # t)"
      by (simp only: r append_Cons)
    finally show ?thesis .
  qed
qed

lemma sub_spaces_keeps_token:
  assumes "ds \<noteq> []" and "\<forall>d\<in>set ds. is_digit d"
  shows "contains (sub_spaces (x @ (''mtu '' @ ds) @ y)) (''mtu '' @ ds)"
proof -
  have "sub_spaces (x @ (''mtu '' @ ds) @ y) = sub_spaces x @ sub_spaces (''mtu '' @ ds @ y)"
    using sub_spaces_append [of "CHR ''m''" x "''tu '' @ ds @ y"] by (simp add: is_space_def)
  also have "\<dots> = sub_spaces x @ (''mtu '' @ ds) @ sub_spaces y"
    using sub_spaces_token [OF assms] by simp
  finally show ?thesis by (simp only: contains_middle)
qed


lemma single_line_search:
  assumes nl: "newline \<notin> set s" and tok: "match_token s K = Some e"
    and last: "\<forall>k'. K < k' \<longrightarrow> match_token s k' = None"
  shows "RE_MTU_search s = Some \<lparr>group_before = take K s,
                                  group_mtu = take (e - (K + 4)) (drop (K + 4) s),
                                  group_after = drop e s\<rparr>"
proof -
  let ?nl = "\<lambda>c. c \<noteq> newline"
  let ?f = "\<lambda>k. case match_token s k of
                   None \<Rightarrow> None
                 | Some e \<Rightarrow>
                     Some \<lparr>group_before = take (k - 0) (drop 0 s),
                           group_mtu = take (e - (k + 4)) (drop (k + 4) s),
                           group_after = takeWhile ?nl (drop e s)\<rparr>"
  have all: "takeWhile ?nl s = s" using nl by (simp add: takeWhile_eq_all_conv) blast
  have "set (drop e s) \<subseteq> set s" by (rule set_drop_subset)
  with nl have "takeWhile ?nl (drop e s) = drop e s"
    by (simp add: takeWhile_eq_all_conv) blast
  with tok have fK: "?f K = Some \<lparr>group_before = take K s,
                                  group_mtu = take (e - (K + 4)) (drop (K + 4) s),
                                  group_after = drop e s\<rparr>"
    by simp
  from match_token_SomeD [OF tok] have K: "K < Suc (length s)" by auto
  have none: "\<forall>k'. K < k' \<and> k' < Suc (length s) \<longrightarrow> ?f k' = None"
    using last by simp
  have "first_some ?f (rev [0..<Suc (length s)]) = Some \<lparr>group_before = take K s,
                                  group_mtu = take (e - (K + 4)) (drop (K + 4) s),
                                  group_after = drop e s\<rparr>"
    using le0 K fK none by (rule first_some_rev_upt_last)
  then have m0: "match_at s 0 = Some \<lparr>group_before = take K s,
                                  group_mtu = take (e - (K + 4)) (drop (K + 4) s),
                                  group_after = drop e s\<rparr>"
    unfolding match_at_def Let_def by (simp only: all drop_0 add_0)
  have "[0..<Suc (length s)] = 0 # [1..<Suc (length s)]" by (simp add: upt_conv_Cons del: upt_Suc)
  then have "RE_MTU_search s = first_some (match_at s) (0 # [1..<Suc (length s)])"
    by (simp only: RE_MTU_search_def)
  with m0 show ?thesis by simp
qed

lemma token_positions_sorted: "sorted_wrt (<) (token_positions s)"
  unfolding token_positions_def by (intro sorted_wrt_filter) simp

lemma token_positions_last:
  assumes "token_positions s \<noteq> []"
  shows "match_token s (last (token_positions s)) \<noteq> None"
    and "\<forall>k'. last (token_positions s) < k' \<longrightarrow> match_token s k' = None"
    and "\<forall>k\<in>set (butlast (token_positions s)).
           k < last (token_positions s) \<and> match_token s k \<noteq> None"
proof -
  let ?xs = "token_positions s"
  have split: "butlast ?xs @ [last ?xs] = ?xs" using assms by simp
  have "sorted_wrt (<) (butlast ?xs @ [last ?xs])"
    using token_positions_sorted [of s] by (simp only: split)
  then have lt: "\<forall>k\<in>set (butlast ?xs). k < last ?xs"
    by (simp add: sorted_wrt_append)
  have "last ?xs \<in> set ?xs" using assms by simp
  then show "match_token s (last ?xs) \<noteq> None" by (simp add: token_positions_iff)
  show "\<forall>k'. last ?xs < k' \<longrightarrow> match_token s k' = None"
  proof (intro allI impI, rule ccontr)
    fix k'
    assume k': "last ?xs < k'" and "match_token s k' \<noteq> None"
    then have "k' \<in> set ?xs" by (simp add: token_positions_iff)
    then have "k' \<in> set (butlast ?xs @ [last ?xs])" by (simp only: split)
    then have "k' \<in> set (butlast ?xs) \<or> k' = last ?xs" by auto
    with lt k' show False by auto
  qed
  have "\<forall>k\<in>set (butlast ?xs). k \<in> set ?xs" by (auto dest: in_set_butlastD)
  then have "\<forall>k\<in>set (butlast ?xs). match_token s k \<noteq> None"
    by (simp add: token_positions_iff)
  with lt show "\<forall>k\<in>set (butlast ?xs). k < last ?xs \<and> match_token s k \<noteq> None" by blast
qed

lemma token_at_text:
  assumes "match_token s k = Some e"
  shows "\<exists>ds. token_at s k = ''mtu '' @ ds \<and> ds \<noteq> [] \<and> (\<forall>d\<in>set ds. is_digit d)
           \<and> s = take k s @ token_at s k @ drop e s \<and> e = k + length (token_at s k)
           \<and> drop 4 (token_at s k) = take (e - (k + 4)) (drop (k + 4) s)"
proof -
  from match_token_SomeD [OF assms] obtain ds where
    split: "s = take k s @ ''mtu '' @ ds @ drop e s" and ne: "ds \<noteq> []"
    and dig: "\<forall>d\<in>set ds. is_digit d"
    and e: "e = k + 4 + length ds" and ele: "e \<le> length s"
    by blast
  have lk: "length (take k s) = k" using e ele by simp
  have "drop k s = drop (length (take k s)) (take k s @ ''mtu '' @ ds @ drop e s)"
    using split lk by simp
  also have "\<dots> = ''mtu '' @ ds @ drop e s" by simp
  finally have dk: "drop k s = (''mtu '' @ ds) @ drop e s" by simp
  have "length (''mtu '' @ ds) = e - k" using e by simp
  then have "take (e - k) (drop k s) = ''mtu '' @ ds"
    using dk by (metis append_eq_conv_conj)
  then have ta: "token_at s k = ''mtu '' @ ds" using assms by (simp add: token_at_def)
  have "drop (k + 4) s = drop 4 (drop k s)" by (simp add: add.commute)
  also have "\<dots> = ds @ drop e s" using dk by simp
  finally have "take (e - (k + 4)) (drop (k + 4) s) = ds" using e by simp
  with ta split ne dig e show ?thesis by simp
qed

lemma tokens_disjoint:
  assumes "match_token s k = Some e" and "match_token s K = Some e'" and "k < K"
  shows "e \<le> K"
proof (rule ccontr)
  assume "\<not> e \<le> K"
  then have Ke: "K < e" by simp
  from token_at_text [OF assms(1)] obtain ds where
    ta: "token_at s k = ''mtu '' @ ds" and dig: "\<forall>d\<in>set ds. is_digit d"
    and split: "s = take k s @ token_at s k @ drop e s" and e: "e = k + length (token_at s k)"
    by blast
  from token_at_text [OF assms(2)] obtain ds' where
    split': "s = take K s @ (''mtu '' @ ds') @ drop e' s" and e': "e' = K + length (token_at s K)"
    and ta': "token_at s K = ''mtu '' @ ds'"
    by metis
  from match_token_SomeD [OF assms(2)] have "K + 4 \<le> length s" by blast
  then have lK: "length (take K s) = K" by simp
  have "s ! K = (take K s @ (''mtu '' @ ds') @ drop e' s) ! K" using split' by simp
  also have "\<dots> = ((''mtu '' @ ds') @ drop e' s) ! 0" using lK by (simp add: nth_append)
  finally have m: "s ! K = CHR ''m''" by simp
  from match_token_SomeD [OF assms(1)] have "e \<le> length s" by blast
  with Ke assms(3) have lk: "length (take k s) = k" by simp
  let ?j = "K - k"
  have j: "0 < ?j" "?j < length (''mtu '' @ ds)" using assms(3) Ke e ta by auto
  have "s ! K = (take k s @ (''mtu '' @ ds) @ drop e s) ! (k + ?j)"
    using split ta assms(3) by simp
  also have "\<dots> = ((''mtu '' @ ds) @ drop e s) ! ?j"
    using lk by (simp only: nth_append_length_plus [of "take k s", simplified lk])
  also have "\<dots> = (''mtu '' @ ds) ! ?j" using j(2) by (simp only: nth_append if_True)
  finally have sj: "s ! K = (''mtu '' @ ds) ! ?j" .
  have "(''mtu '' @ ds) ! ?j \<noteq> CHR ''m''"
  proof (cases "?j < 4")
    case True
    with j(1) have "?j = 1 \<or> ?j = 2 \<or> ?j = 3" by auto
    then show ?thesis by auto
  next
    case False
    then obtain j' where j': "K - k = 4 + j'" by (metis le_add_diff_inverse not_less)
    have "(''mtu '' @ ds) ! (4 + j') = ds ! j'"
      using nth_append_length_plus [of "''mtu ''" ds j'] by simp
    moreover have "ds ! j' \<in> set ds" using j' j(2) by simp
    ultimately have "is_digit ((''mtu '' @ ds) ! ?j)" using dig j' by simp
    then show ?thesis by (auto simp: is_digit_def)
  qed
  with sj m show False by simp
qed


text \<open>
  C9, as the code has it. For a row whose \<^verbatim>\<open>int_options\<close> hold no newline and two or more
  standalone \<^verbatim>\<open>mtu <N>\<close> tokens, the first loop saves the row with \<^verbatim>\<open>int_mtu\<close> the number of the
  last token, and the text of every earlier token occurs in the saved \<^verbatim>\<open>int_options\<close>.
\<close>

theorem extract_mtu_last_token:
  assumes "newline \<notin> set (int_options i)"
    and "2 \<le> length (token_positions (int_options i))"
  shows "\<exists>i'. extract_mtu i = Some i'
           \<and> int_mtu i' = Some (token_mtu (int_options i) (last (token_positions (int_options i))))
           \<and> (\<forall>k\<in>set (butlast (token_positions (int_options i))).
                 token_at (int_options i) k \<noteq> []
                 \<and> contains (int_options i') (token_at (int_options i) k))"
proof -
  let ?s = "int_options i"
  let ?K = "last (token_positions ?s)"
  from assms(2) have ne: "token_positions ?s \<noteq> []" by auto
  from token_positions_last(1) [OF ne] obtain e where tok: "match_token ?s ?K = Some e" by blast
  note last = token_positions_last(2) [OF ne]
  note earlier = token_positions_last(3) [OF ne]
  let ?reg = "\<lparr>group_before = take ?K ?s, group_mtu = take (e - (?K + 4)) (drop (?K + 4) ?s),
               group_after = drop e ?s\<rparr>"
  have search: "RE_MTU_search ?s = Some ?reg"
    using assms(1) tok last by (rule single_line_search)
  from match_token_SomeD [OF tok] have "?K + 4 \<le> length ?s" by blast
  then have "?s \<noteq> []" by auto
  let ?i' = "i\<lparr>int_mtu := Some (int_str (take (e - (?K + 4)) (drop (?K + 4) ?s))),
               int_options := sub_spaces (take ?K ?s @ drop e ?s)\<rparr>"
  have ex: "extract_mtu i = Some ?i'"
    using search \<open>?s \<noteq> []\<close> by (simp add: extract_mtu_def)
  from token_at_text [OF tok]
  have "drop 4 (token_at ?s ?K) = take (e - (?K + 4)) (drop (?K + 4) ?s)" by blast
  then have mtu: "int_mtu ?i' = Some (token_mtu ?s ?K)" by (simp add: token_mtu_def)
  have rest: "token_at ?s k \<noteq> [] \<and> contains (int_options ?i') (token_at ?s k)"
    if k: "k \<in> set (butlast (token_positions ?s))" for k
  proof -
    from earlier k have kK: "k < ?K" and "match_token ?s k \<noteq> None" by auto
    then obtain ek where tk: "match_token ?s k = Some ek" by blast
    from tokens_disjoint [OF tk tok kK] have ekK: "ek \<le> ?K" .
    from token_at_text [OF tk] obtain ds where
      ta: "token_at ?s k = ''mtu '' @ ds" and dne: "ds \<noteq> []" and dig: "\<forall>d\<in>set ds. is_digit d"
      and ek: "ek = k + length (token_at ?s k)"
      by blast
    have kek: "k \<le> ek" using ek by simp
    have "take ?K ?s = take (ek + (?K - ek)) ?s" using ekK by simp
    also have "\<dots> = take ek ?s @ take (?K - ek) (drop ek ?s)" by (rule take_add)
    also have "take ek ?s = take (k + (ek - k)) ?s" using kek by simp
    also have "\<dots> = take k ?s @ take (ek - k) (drop k ?s)" by (rule take_add)
    also have "take (ek - k) (drop k ?s) = token_at ?s k" using tk by (simp add: token_at_def)
    finally have "take ?K ?s @ drop e ?s
        = take k ?s @ (''mtu '' @ ds) @ (take (?K - ek) (drop ek ?s) @ drop e ?s)"
      using ta by simp
    then have "int_options ?i'
        = sub_spaces (take k ?s @ (''mtu '' @ ds) @ (take (?K - ek) (drop ek ?s) @ drop e ?s))"
      by simp
    then have "contains (int_options ?i') (''mtu '' @ ds)"
      using sub_spaces_keeps_token [OF dne dig] by simp
    with ta show ?thesis by simp
  qed
  from ex mtu rest show ?thesis by blast
qed

lemma two_tokens: "token_positions ''mtu 1500 mtu 9000'' = [0, 9]"
  by code_simp

lemma two_tokens_last: "token_mtu ''mtu 1500 mtu 9000'' 9 = 9000"
  by code_simp

lemma two_tokens_first: "token_at ''mtu 1500 mtu 9000'' 0 = ''mtu 1500''"
  by code_simp

theorem extract_mtu_last_token_witness:
  "\<exists>i'. extract_mtu (em0\<lparr>int_options := ''mtu 1500 mtu 9000''\<rparr>) = Some i'
         \<and> int_mtu i' = Some 9000 \<and> contains (int_options i') ''mtu 1500''"
proof -
  let ?i = "em0\<lparr>int_options := ''mtu 1500 mtu 9000''\<rparr>"
  have h1: "newline \<notin> set (int_options ?i)" by (simp add: newline_def)
  have h2: "2 \<le> length (token_positions (int_options ?i))" by (simp add: two_tokens)
  from extract_mtu_last_token [OF h1 h2] show ?thesis
    by (simp add: two_tokens two_tokens_last two_tokens_first)
qed

text \<open>
  C9 as stated fails for options of several lines: \<^verbatim>\<open>.\<close> matches no newline, so the search
  stops in the first line that holds a token, and only the groups of that line are kept.
  For the two lines \<^verbatim>\<open>mtu 1\<close> and \<^verbatim>\<open>mtu 2\<close> the saved \<^verbatim>\<open>int_mtu\<close> is 1, the number of the first token and not of
  the last, and the saved \<^verbatim>\<open>int_options\<close> are empty.
\<close>

theorem extract_mtu_last_token_counterexample:
  "token_positions (''mtu 1'' @ [newline] @ ''mtu 2'') = [0, 6]
   \<and> token_mtu (''mtu 1'' @ [newline] @ ''mtu 2'') 6 = 2
   \<and> extract_mtu (em0\<lparr>int_options := ''mtu 1'' @ [newline] @ ''mtu 2''\<rparr>)
       = Some (em0\<lparr>int_mtu := Some 1, int_options := []\<rparr>)"
  by code_simp

section \<open>The options after the migration\<close>

lemma sub_spaces_Cons_D:
  assumes "sub_spaces x = a # y" and "a \<noteq> CHR '' ''"
  shows "\<exists>x'. x = a # x' \<and> y = sub_spaces x'"
proof (cases x)
  case Nil
  with assms show ?thesis by simp
next
  case (Cons c cs)
  with assms show ?thesis by (auto split: if_splits)
qed

lemma startswith_mtu_D:
  "startswith s ''mtu'' \<Longrightarrow> \<exists>t. s = ''mtu'' @ t"
  unfolding startswith_def by (metis append_take_drop_id)

lemma startswith_mtu_I: "startswith (''mtu'' @ t) ''mtu''"
  by (simp add: startswith_def)

lemma contains_dropWhile: "contains (dropWhile P s) p \<Longrightarrow> contains s p"
proof -
  assume "contains (dropWhile P s) p"
  then have "contains (takeWhile P s @ dropWhile P s) p" by (rule contains_append_left)
  then show ?thesis by simp
qed

lemma sub_spaces_mtu:
  "contains (sub_spaces x) ''mtu'' \<Longrightarrow> contains x ''mtu''"
proof (induction x rule: sub_spaces.induct)
  case 1
  then show ?case by simp
next
  case (2 c cs)
  show ?case
  proof (cases "is_space c \<and> (case cs of [] \<Rightarrow> False | d # _ \<Rightarrow> is_space d)")
    case True
    then have eq: "sub_spaces (c # cs) = CHR '' '' # sub_spaces (dropWhile is_space cs)"
      by simp
    have "\<not> startswith (CHR '' '' # sub_spaces (dropWhile is_space cs)) ''mtu''"
      by (simp add: startswith_def)
    with 2(3) eq have "contains (sub_spaces (dropWhile is_space cs)) ''mtu''" by simp
    from 2(1) [OF True this] have "contains cs ''mtu''" by (rule contains_dropWhile)
    then show ?thesis by simp
  next
    case False
    then have eq: "sub_spaces (c # cs) = c # sub_spaces cs"
      by (simp only: sub_spaces.simps if_False)
    show ?thesis
    proof (cases "startswith (c # sub_spaces cs) ''mtu''")
      case True
      from startswith_mtu_D [OF True] obtain t where t: "c # sub_spaces cs = ''mtu'' @ t" by blast
      then have c: "c = CHR ''m''" and s1: "sub_spaces cs = CHR ''t'' # CHR ''u'' # t" by auto
      from sub_spaces_Cons_D [OF s1] obtain cs1 where
        cs: "cs = CHR ''t'' # cs1" and s2: "CHR ''u'' # t = sub_spaces cs1" by auto
      from sub_spaces_Cons_D [OF s2 [symmetric]] obtain cs2 where
        cs1: "cs1 = CHR ''u'' # cs2" by auto
      have "startswith (c # cs) ''mtu''" using c cs cs1 by (simp add: startswith_def)
      then show ?thesis by simp
    next
      case nsw: False
      with 2(3) eq have "contains (sub_spaces cs) ''mtu''" by simp
      from 2(2) [OF False this] show ?thesis by simp
    qed
  qed
qed

lemma count_contains: "p \<noteq> [] \<Longrightarrow> (0 < count_str s p) = contains s p"
  by (induction s) auto

lemma count_append_ge: "count_str x p + count_str y p \<le> count_str (x @ y) p"
proof (induction x)
  case Nil
  show ?case by simp
next
  case (Cons c x)
  have "startswith (c # x) p \<Longrightarrow> startswith ((c # x) @ y) p"
    unfolding startswith_def
    by (metis append_eq_conv_conj append.assoc append_take_drop_id)
  with Cons show ?case by auto
qed

lemma contains_junction:
  assumes "b = [] \<or> \<not> is_word (last b)"
    and "\<not> contains b ''mtu''" and "\<not> contains a ''mtu''"
  shows "\<not> contains (b @ a) ''mtu''"
  using assms
proof (induction b)
  case Nil
  then show ?case by simp
next
  case (Cons c b)
  have nb: "\<not> contains b ''mtu''" using Cons.prems(2) by simp
  have lb: "b = [] \<or> \<not> is_word (last b)" using Cons.prems(1) by auto
  have ih: "\<not> contains (b @ a) ''mtu''" using Cons.IH [OF lb nb Cons.prems(3)] .
  have nsw: "\<not> startswith (c # b) ''mtu''" using Cons.prems(2) by simp
  have "\<not> startswith (c # b @ a) ''mtu''"
  proof
    assume sw: "startswith (c # b @ a) ''mtu''"
    then have c: "c = CHR ''m''" by (simp add: startswith_def)
    show False
    proof (cases b)
      case Nil
      with Cons.prems(1) c show False by (simp add: is_word_def)
    next
      case b1: (Cons d b')
      with sw have d: "d = CHR ''t''" by (simp add: startswith_def)
      show False
      proof (cases b')
        case Nil
        with Cons.prems(1) b1 d show False by (simp add: is_word_def)
      next
        case (Cons f b'')
        with sw b1 have "f = CHR ''u''" by (simp add: startswith_def)
        with c d b1 Cons nsw show False by (simp add: startswith_def)
      qed
    qed
  qed
  with ih show ?case by simp
qed


lemma has_mtu_token_contains: "has_mtu_token x \<Longrightarrow> contains x ''mtu''"
proof -
  assume "has_mtu_token x"
  then obtain k e where "match_token x k = Some e" by (auto simp: has_mtu_token_iff)
  from token_at_text [OF this] obtain ds where
    "token_at x k = ''mtu '' @ ds" and "x = take k x @ token_at x k @ drop e x" by blast
  then have "x = take k x @ ''mtu'' @ ('' '' @ ds @ drop e x)" by simp
  then show ?thesis by (metis contains_middle)
qed

lemma extracted_no_token:
  assumes "count_str (int_options i) ''mtu'' \<le> 1"
  shows "\<not> has_mtu_token (int_options (extracted i))"
proof (cases "extract_mtu i")
  case None
  then have x: "extracted i = i" by (simp add: extracted_def)
  show ?thesis
  proof (cases "int_options i = []")
    case True
    then show ?thesis using x by (simp add: has_mtu_token_def token_positions_def)
  next
    case False
    with None have "RE_MTU_search (int_options i) = None"
      by (simp add: extract_mtu_def split: option.splits)
    then show ?thesis using x by (simp add: RE_MTU_search_None_iff)
  qed
next
  case (Some i')
  then obtain reg where search: "RE_MTU_search (int_options i) = Some reg"
    and i': "i' = i\<lparr>int_mtu := Some (int_str (group_mtu reg)),
                     int_options := sub_spaces (group_before reg @ group_after reg)\<rparr>"
    by (auto simp: extract_mtu_def split: if_splits option.splits)
  let ?b = "group_before reg" and ?a = "group_after reg" and ?m = "group_mtu reg"
  from RE_MTU_search_groups(1) [OF search] obtain p q where
    s: "int_options i = p @ ?b @ ''mtu '' @ ?m @ ?a @ q" by blast
  note left = RE_MTU_search_groups(4) [OF search]
  have "startswith (''mtu '' @ ?m) ''mtu''" by (simp add: startswith_def)
  then have one: "1 \<le> count_str (''mtu '' @ ?m) ''mtu''" by simp
  have "count_str ?b ''mtu'' + count_str ((''mtu '' @ ?m) @ ?a @ q) ''mtu''
      \<le> count_str (?b @ (''mtu '' @ ?m) @ ?a @ q) ''mtu''"
    by (rule count_append_ge)
  moreover have "count_str (''mtu '' @ ?m) ''mtu'' + count_str (?a @ q) ''mtu''
      \<le> count_str ((''mtu '' @ ?m) @ ?a @ q) ''mtu''"
    by (rule count_append_ge)
  moreover have "count_str ?a ''mtu'' + count_str q ''mtu'' \<le> count_str (?a @ q) ''mtu''"
    by (rule count_append_ge)
  moreover have "count_str p ''mtu'' + count_str (?b @ (''mtu '' @ ?m) @ ?a @ q) ''mtu''
      \<le> count_str (p @ ?b @ (''mtu '' @ ?m) @ ?a @ q) ''mtu''"
    by (rule count_append_ge)
  moreover have "count_str (p @ ?b @ (''mtu '' @ ?m) @ ?a @ q) ''mtu'' \<le> 1"
    using assms s by simp
  ultimately have "count_str ?b ''mtu'' = 0" and "count_str ?a ''mtu'' = 0"
    using one by linarith+
  then have "\<not> contains ?b ''mtu''" and "\<not> contains ?a ''mtu''"
    using count_contains [of "''mtu''" ?b] count_contains [of "''mtu''" ?a] by simp_all
  with left have "\<not> contains (?b @ ?a) ''mtu''" by (rule contains_junction)
  then have "\<not> contains (sub_spaces (?b @ ?a)) ''mtu''" using sub_spaces_mtu by blast
  then have "\<not> has_mtu_token (sub_spaces (?b @ ?a))" using has_mtu_token_contains by blast
  with Some i' show ?thesis by (simp add: extracted_def)
qed

lemma map_pk_save: "map int_pk (save inst rows) = map int_pk rows"
  by (simp add: save_def)

lemma save_mtu_frame:
  assumes "distinct (map int_pk rows)" and "i \<in> set rows"
  shows "map (\<lambda>r. r\<lparr>int_mtu := None\<rparr>) (save (i\<lparr>int_mtu := v\<rparr>) rows)
           = map (\<lambda>r. r\<lparr>int_mtu := None\<rparr>) rows"
proof -
  have "save (i\<lparr>int_mtu := v\<rparr>) rows = map (\<lambda>r. if r = i then i\<lparr>int_mtu := v\<rparr> else r) rows"
    using save_distinct [OF assms, of "\<lambda>r. r\<lparr>int_mtu := v\<rparr>"] by simp
  then show ?thesis by (simp add: comp_def if_distrib cong: if_cong)
qed

lemma filter_first_in: "filter P xs = x # ys \<Longrightarrow> x \<in> set xs"
proof -
  assume "filter P xs = x # ys"
  then have "x \<in> set (filter P xs)" by simp
  then show ?thesis by simp
qed

lemma member_mtu_frame:
  assumes "distinct (map int_pk rows)" and "member_mtu member (l, rows) = (l', rows')"
  shows "map (\<lambda>r. r\<lparr>int_mtu := None\<rparr>) rows' = map (\<lambda>r. r\<lparr>int_mtu := None\<rparr>) rows"
proof (cases "filter (\<lambda>r. int_interface r = lagg_physnic member) rows")
  case Nil
  with assms(2) show ?thesis by (simp add: member_mtu_def)
next
  case (Cons i rest)
  then have "i \<in> set rows" by (rule filter_first_in)
  from save_mtu_frame [OF assms(1) this, of None] assms(2) Cons
  show ?thesis by (auto simp: member_mtu_def split: option.splits if_splits)
qed

lemma frame_pks:
  "map (\<lambda>r. r\<lparr>int_mtu := None\<rparr>) rows' = map (\<lambda>r. r\<lparr>int_mtu := None\<rparr>) rows \<Longrightarrow>
     map int_pk rows' = map int_pk rows"
proof -
  assume a: "map (\<lambda>r. r\<lparr>int_mtu := None\<rparr>) rows' = map (\<lambda>r. r\<lparr>int_mtu := None\<rparr>) rows"
  have "map int_pk rows' = map int_pk (map (\<lambda>r. r\<lparr>int_mtu := None\<rparr>) rows')" by (simp add: comp_def)
  also have "\<dots> = map int_pk (map (\<lambda>r. r\<lparr>int_mtu := None\<rparr>) rows)" by (simp only: a)
  also have "\<dots> = map int_pk rows" by (simp add: comp_def)
  finally show ?thesis .
qed

lemma frame_options:
  "map (\<lambda>r. r\<lparr>int_mtu := None\<rparr>) rows' = map (\<lambda>r. r\<lparr>int_mtu := None\<rparr>) rows \<Longrightarrow>
     map int_options rows' = map int_options rows"
proof -
  assume a: "map (\<lambda>r. r\<lparr>int_mtu := None\<rparr>) rows' = map (\<lambda>r. r\<lparr>int_mtu := None\<rparr>) rows"
  have "map int_options rows' = map int_options (map (\<lambda>r. r\<lparr>int_mtu := None\<rparr>) rows')"
    by (simp add: comp_def)
  also have "\<dots> = map int_options (map (\<lambda>r. r\<lparr>int_mtu := None\<rparr>) rows)" by (simp only: a)
  also have "\<dots> = map int_options rows" by (simp add: comp_def)
  finally show ?thesis .
qed

lemma fold_member_mtu_frame:
  assumes "distinct (map int_pk rows)" and "fold member_mtu ms (l, rows) = (l', rows')"
  shows "map (\<lambda>r. r\<lparr>int_mtu := None\<rparr>) rows' = map (\<lambda>r. r\<lparr>int_mtu := None\<rparr>) rows"
  using assms
proof (induction ms arbitrary: l rows)
  case Nil
  then show ?case by simp
next
  case (Cons m ms)
  obtain l1 rows1 where step: "member_mtu m (l, rows) = (l1, rows1)" by (cases "member_mtu m (l, rows)")
  from member_mtu_frame [OF Cons.prems(1) step]
  have f1: "map (\<lambda>r. r\<lparr>int_mtu := None\<rparr>) rows1 = map (\<lambda>r. r\<lparr>int_mtu := None\<rparr>) rows" .
  have "distinct (map int_pk rows1)" using Cons.prems(1) by (simp only: frame_pks [OF f1])
  moreover have "fold member_mtu ms (l1, rows1) = (l', rows')" using Cons.prems(2) step by simp
  ultimately have "map (\<lambda>r. r\<lparr>int_mtu := None\<rparr>) rows' = map (\<lambda>r. r\<lparr>int_mtu := None\<rparr>) rows1"
    by (rule Cons.IH)
  with f1 show ?case by simp
qed

lemma get_interface_in: "get_interface k rows = Inr r \<Longrightarrow> r \<in> set rows \<and> int_pk r = k"
  by (auto simp: get_interface_def find_Some_iff split: option.splits)

lemma lagg_mtu_frame:
  assumes "unique_pks db" and "lagg_mtu lagg db = Inr db'"
  shows "add_field db' = add_field db"
proof -
  obtain l rows where f: "fold member_mtu (lagginterfacemembers_set lagg db) (None, Interfaces db) = (l, rows)"
    by (cases "fold member_mtu (lagginterfacemembers_set lagg db) (None, Interfaces db)")
  from assms(1) have d: "distinct (map int_pk (Interfaces db))" by (simp add: unique_pks_def)
  from fold_member_mtu_frame [OF d f]
  have f1: "map (\<lambda>r. r\<lparr>int_mtu := None\<rparr>) rows = map (\<lambda>r. r\<lparr>int_mtu := None\<rparr>) (Interfaces db)" .
  show ?thesis
  proof (cases "truthy l")
    case False
    with assms(2) f have "db' = db\<lparr>Interfaces := rows\<rparr>" by (simp add: lagg_mtu_def)
    with f1 show ?thesis by (simp add: add_field_def)
  next
    case True
    with assms(2) f obtain interface where g: "get_interface (lagg_interface lagg) rows = Inr interface"
      and db': "db' = db\<lparr>Interfaces := save (interface\<lparr>int_mtu := l\<rparr>) rows\<rparr>"
      by (auto simp: lagg_mtu_def split: sum.splits)
    from d have d1: "distinct (map int_pk rows)" by (simp only: frame_pks [OF f1])
    from get_interface_in [OF g] have "interface \<in> set rows" by simp
    from save_mtu_frame [OF d1 this, of l] f1 db' show ?thesis by (simp add: add_field_def)
  qed
qed

lemma add_field_unique: "unique_pks (add_field db) = unique_pks db"
  by (simp add: add_field_def unique_pks_def comp_def)

lemma lagg_mtus_frame:
  assumes "unique_pks db" and "lagg_mtus laggs db = Inr db'"
  shows "add_field db' = add_field db"
  using assms
proof (induction laggs arbitrary: db)
  case Nil
  then show ?case by simp
next
  case (Cons lagg laggs)
  from Cons.prems(2) obtain db1 where s: "lagg_mtu lagg db = Inr db1" and r: "lagg_mtus laggs db1 = Inr db'"
    by (auto split: sum.splits)
  from lagg_mtu_frame [OF Cons.prems(1) s] have e: "add_field db1 = add_field db" .
  then have "unique_pks db1" using Cons.prems(1) add_field_unique by metis
  from Cons.IH [OF this r] e show ?case by simp
qed


lemma move_laggmember_unique:
  assumes "unique_pks db" and "move_laggmember blank m db = Inr db'"
  shows "unique_pks db'"
proof (cases "filter (\<lambda>r. int_interface r = lagg_physnic m) (Interfaces db)")
  case (Cons i rest)
  with assms(2) have "Interfaces db' = save (i\<lparr>int_options := member_options (lagg_deviceoptions m)\<rparr>) (Interfaces db)"
    by (auto simp: move_laggmember_def)
  with assms(1) show ?thesis by (simp add: unique_pks_def map_pk_save)
next
  case Nil
  with assms(2) obtain nic name options where
    "Interfaces db' = create blank nic name options (Interfaces db)"
    by (auto simp: move_laggmember_def split: sum.splits)
  moreover have "next_pk (Interfaces db) \<notin> int_pk ` set (Interfaces db)"
    by (auto dest!: next_pk_fresh)
  ultimately show ?thesis using assms(1) by (simp add: unique_pks_def create_def)
qed

lemma move_laggmembers_unique:
  assumes "unique_pks db" and "move_laggmembers blank ms db = Inr db'"
  shows "unique_pks db'"
  using assms
proof (induction ms arbitrary: db)
  case Nil
  then show ?case by simp
next
  case (Cons m ms)
  from Cons.prems(2) obtain db1 where s: "move_laggmember blank m db = Inr db1"
    and r: "move_laggmembers blank ms db1 = Inr db'"
    by (auto split: sum.splits)
  from move_laggmember_unique [OF Cons.prems(1) s] have "unique_pks db1" .
  from Cons.IH [OF this r] show ?case .
qed

text \<open>
  C1, as the code has it. The first loop of \<^verbatim>\<open>move_mtu_from_options\<close> takes one token out of a
  row, once. After the whole migration (keys unique), every \<^verbatim>\<open>Interfaces\<close> row whose
  \<^verbatim>\<open>int_options\<close>, as \<^verbatim>\<open>move_laggmember_options\<close> left them, hold the letters \<^verbatim>\<open>mtu\<close> at most
  once has \<^verbatim>\<open>int_options\<close> without a standalone \<^verbatim>\<open>mtu <N>\<close> token. The rows of the store after
  the migration are those after the relocation, key by key.
\<close>

theorem Migration_no_token:
  assumes "unique_pks db" and "Migration blank db = Inr db'"
  shows "\<exists>db1. move_laggmember_options blank db = Inr db1
           \<and> map int_pk (Interfaces db') = map int_pk (Interfaces db1)
           \<and> (\<forall>k<length (Interfaces db1).
                 count_str (int_options (Interfaces db1 ! k)) ''mtu'' \<le> 1
                 \<longrightarrow> \<not> has_mtu_token (int_options (Interfaces db' ! k)))"
proof -
  from assms(2) obtain db1 where m1: "move_laggmember_options blank db = Inr db1"
    and m2: "move_mtu_from_options (add_field (remove_field db1)) = Inr db'"
    by (auto simp: Migration_def split: sum.splits)
  let ?db2 = "add_field (remove_field db1)"
  let ?rows2 = "map (\<lambda>r. r\<lparr>int_mtu := None\<rparr>) (Interfaces db1)"
  have r2: "Interfaces ?db2 = ?rows2" by (simp add: add_field_def remove_field_def)
  from m1 assms(1) have u1: "unique_pks db1"
    unfolding move_laggmember_options_def by (rule move_laggmembers_unique [rotated])
  then have d2: "distinct (map int_pk ?rows2)" by (simp add: unique_pks_def comp_def)
  let ?db3 = "?db2\<lparr>Interfaces := map extracted ?rows2\<rparr>"
  have "fold extract_step ?rows2 ?rows2 = map extracted ?rows2" using d2 by (rule extract_loop)
  with m2 r2 have m3: "lagg_mtus (LAGGInterface ?db2) ?db3 = Inr db'"
    by (simp add: move_mtu_from_options_def)
  have u3: "unique_pks ?db3" using d2 by (simp add: unique_pks_def comp_def extracted_pk)
  from lagg_mtus_frame [OF u3 m3] have "Interfaces (add_field db') = Interfaces (add_field ?db3)"
    by (rule arg_cong)
  then have
    f: "map (\<lambda>r. r\<lparr>int_mtu := None\<rparr>) (Interfaces db')
          = map (\<lambda>r. r\<lparr>int_mtu := None\<rparr>) (map extracted ?rows2)"
    by (simp add: add_field_def)
  from frame_pks [OF f] have pk: "map int_pk (Interfaces db') = map int_pk (Interfaces db1)"
    by (simp add: comp_def extracted_pk)
  from frame_options [OF f] have
    op: "map int_options (Interfaces db') = map int_options (map extracted ?rows2)" .
  have "\<not> has_mtu_token (int_options (Interfaces db' ! k))"
    if k: "k < length (Interfaces db1)"
      and c: "count_str (int_options (Interfaces db1 ! k)) ''mtu'' \<le> 1" for k
  proof -
    let ?r = "(Interfaces db1 ! k)\<lparr>int_mtu := None\<rparr>"
    from pk have "length (Interfaces db') = length (Interfaces db1)" by (metis length_map)
    with k have "int_options (Interfaces db' ! k) = map int_options (Interfaces db') ! k" by simp
    also have "\<dots> = int_options (extracted ?r)" using k by (simp add: op)
    finally have "int_options (Interfaces db' ! k) = int_options (extracted ?r)" .
    moreover have "count_str (int_options ?r) ''mtu'' \<le> 1" using c by simp
    ultimately show ?thesis using extracted_no_token [of ?r] by simp
  qed
  with m1 pk show ?thesis by blast
qed

lemma example_relocation: "move_laggmember_options () example_db = Inr example_db_relocated"
  by code_simp

lemma example_migration: "Migration () example_db = Inr example_db_migrated"
  by code_simp

theorem Migration_no_token_witness:
  "unique_pks example_db \<and> Migration () example_db = Inr example_db_migrated
   \<and> \<not> has_mtu_token (int_options (Interfaces example_db_migrated ! 0))
   \<and> \<not> has_mtu_token (int_options (Interfaces example_db_migrated ! 1))
   \<and> \<not> has_mtu_token (int_options (Interfaces example_db_migrated ! 2))"
proof -
  have u: "unique_pks example_db" by (simp add: unique_pks_def example_db_def lagg0_def em0_def)
  from Migration_no_token [OF u example_migration] obtain db1 where
    d: "move_laggmember_options () example_db = Inr db1"
    and t: "\<forall>k<length (Interfaces db1).
                 count_str (int_options (Interfaces db1 ! k)) ''mtu'' \<le> 1
                 \<longrightarrow> \<not> has_mtu_token (int_options (Interfaces example_db_migrated ! k))"
    by blast
  from d have db1: "db1 = example_db_relocated" by (simp add: example_relocation)
  have c0: "count_str (int_options (Interfaces example_db_relocated ! 0)) ''mtu'' \<le> 1"
    and c1: "count_str (int_options (Interfaces example_db_relocated ! 1)) ''mtu'' \<le> 1"
    and c2: "count_str (int_options (Interfaces example_db_relocated ! 2)) ''mtu'' \<le> 1"
    by (simp_all add: example_db_relocated_def lagg0_def em0_def startswith_def)
  have l: "length (Interfaces example_db_relocated) = 3" by (simp add: example_db_relocated_def)
  from t [rule_format, of 0] t [rule_format, of 1] t [rule_format, of 2] db1 c0 c1 c2 l
  have "\<not> has_mtu_token (int_options (Interfaces example_db_migrated ! 0))
   \<and> \<not> has_mtu_token (int_options (Interfaces example_db_migrated ! 1))
   \<and> \<not> has_mtu_token (int_options (Interfaces example_db_migrated ! 2))"
    by simp
  with u example_migration show ?thesis by blast
qed

text \<open>
  C1 as stated fails for a row that names the MTU twice: the options
  \<^verbatim>\<open>"mtu 1500 mtu 9000"\<close> become \<^verbatim>\<open>"mtu 1500 "\<close>, which still holds a token.
\<close>

theorem Migration_no_token_counterexample:
  "Migration () two_tokens_db
     = Inr (two_tokens_db\<lparr>Interfaces := [em0\<lparr>int_options := ''mtu 1500 '', int_mtu := Some 9000\<rparr>]\<rparr>)
   \<and> has_mtu_token ''mtu 1500 ''"
  by code_simp

section \<open>The lowest MTU of a LAGG\<close>

lemma map_filter_append: "List.map_filter f (xs @ ys) = List.map_filter f xs @ List.map_filter f ys"
  by (simp add: List.map_filter_def)

lemma first_rows_Cons:
  "first_rows rows (m # ms) =
     (case List.find (\<lambda>r. int_interface r = lagg_physnic m) rows of
        None \<Rightarrow> first_rows rows ms | Some r \<Rightarrow> r # first_rows rows ms)"
  by (simp add: first_rows_def List.map_filter_simps split: option.splits)

lemma mtus_of_snoc:
  "mtus_of (ds @ [r]) = (case int_mtu r of None \<Rightarrow> mtus_of ds | Some v \<Rightarrow> mtus_of ds @ [v])"
  by (simp add: mtus_of_def map_filter_append List.map_filter_simps split: option.splits)

lemma mtus_of_append: "mtus_of (xs @ ys) = mtus_of xs @ mtus_of ys"
  by (simp add: mtus_of_def map_filter_append)

lemma mtus_of_set: "set (mtus_of rs) = {v. \<exists>r\<in>set rs. int_mtu r = Some v}"
  by (induction rs) (auto simp: mtus_of_def List.map_filter_simps split: option.splits)

lemma lowest_cong: "set xs = set ys \<Longrightarrow> lowest xs = lowest ys"
  unfolding lowest_def by (metis set_empty)

lemma lower_mtu_lowest:
  assumes "0 \<notin> set xs" and "v \<noteq> 0"
  shows "lower_mtu v (lowest xs) = lowest (xs @ [v])"
proof (cases "xs = []")
  case True
  then show ?thesis by (simp add: lower_mtu_def lowest_def)
next
  case False
  then have "Min (set xs) \<in> set xs" by (intro Min_in) auto
  with assms(1) have nz: "Min (set xs) \<noteq> 0" by metis
  have m: "Min (set (xs @ [v])) = min v (Min (set xs))" using False by simp
  have "lower_mtu v (Some (Min (set xs))) = Some (min v (Min (set xs)))"
    using nz by (auto simp: lower_mtu_def min_def)
  moreover have "lowest xs = Some (Min (set xs))" using False by (simp add: lowest_def)
  moreover have "lowest (xs @ [v]) = Some (Min (set (xs @ [v])))" by (simp add: lowest_def)
  ultimately show ?thesis by (simp only: m)
qed

lemma clear_mtus_interface: "int_interface (clear_mtus ds r) = int_interface r"
  and clear_mtus_pk: "int_pk (clear_mtus ds r) = int_pk r"
  by (simp_all add: clear_mtus_def)

lemma filter_clear_mtus:
  "filter (\<lambda>r. int_interface r = n) (map (clear_mtus ds) rows)
     = map (clear_mtus ds) (filter (\<lambda>r. int_interface r = n) rows)"
  by (simp add: filter_map comp_def clear_mtus_interface)

lemma mtu_None_update: "int_mtu r = None \<Longrightarrow> r\<lparr>int_mtu := None\<rparr> = r"
  by (cases r) simp


lemma save_cleared:
  assumes d: "distinct (map int_pk rows)" and r: "r \<in> set rows" and nd: "r \<notin> set ds"
  shows "save (r\<lparr>int_mtu := None\<rparr>) (map (clear_mtus ds) rows) = map (clear_mtus (ds @ [r])) rows"
proof -
  have pk: "(int_pk x = int_pk r) = (x = r)" if "x \<in> set rows" for x
    using d r that by (auto simp: distinct_map inj_on_def)
  have "(if int_pk (clear_mtus ds x) = int_pk (r\<lparr>int_mtu := None\<rparr>) then r\<lparr>int_mtu := None\<rparr>
         else clear_mtus ds x) = clear_mtus (ds @ [r]) x" if "x \<in> set rows" for x
    using pk [OF that] nd by (auto simp: clear_mtus_def)
  then show ?thesis unfolding save_def map_map comp_def by (intro map_cong refl)
qed

lemma fold_member_mtu:
  assumes "distinct (map int_pk rows)"
    and "0 \<notin> set (mtus_of (ds @ first_rows rows ms))"
  shows "fold member_mtu ms (lowest (mtus_of ds), map (clear_mtus ds) rows)
           = (lowest (mtus_of (ds @ first_rows rows ms)), map (clear_mtus (ds @ first_rows rows ms)) rows)"
  using assms(2)
proof (induction ms arbitrary: ds)
  case Nil
  show ?case by (simp add: first_rows_def List.map_filter_simps)
next
  case (Cons m ms)
  let ?P = "\<lambda>r. int_interface r = lagg_physnic m"
  show ?case
  proof (cases "List.find ?P rows")
    case None
    then have fr: "first_rows rows (m # ms) = first_rows rows ms" by (simp add: first_rows_Cons)
    from None have "filter ?P rows = []" by (simp add: find_filter_conv split: list.splits)
    then have "member_mtu m (lowest (mtus_of ds), map (clear_mtus ds) rows)
                 = (lowest (mtus_of ds), map (clear_mtus ds) rows)"
      by (simp add: member_mtu_def filter_clear_mtus)
    moreover have "0 \<notin> set (mtus_of (ds @ first_rows rows ms))" using Cons.prems fr by simp
    ultimately show ?thesis using Cons.IH [of ds] fr by simp
  next
    case (Some r)
    then have fr: "first_rows rows (m # ms) = r # first_rows rows ms" by (simp add: first_rows_Cons)
    from Some obtain rest where f: "filter ?P rows = r # rest"
      by (auto simp: find_filter_conv split: list.splits)
    then have rin: "r \<in> set rows" by (rule filter_first_in)
    have cur: "filter ?P (map (clear_mtus ds) rows) = clear_mtus ds r # map (clear_mtus ds) rest"
      using f by (simp add: filter_clear_mtus)
    have app: "ds @ first_rows rows (m # ms) = (ds @ [r]) @ first_rows rows ms" using fr by simp
    have nz: "0 \<notin> set (mtus_of ((ds @ [r]) @ first_rows rows ms))" using Cons.prems app by simp
    note ih = Cons.IH [OF nz]
    have step: "member_mtu m (lowest (mtus_of ds), map (clear_mtus ds) rows)
                 = (lowest (mtus_of (ds @ [r])), map (clear_mtus (ds @ [r])) rows)"
    proof (cases "r \<in> set ds")
      case True
      then have "clear_mtus ds r = r\<lparr>int_mtu := None\<rparr>" by (simp add: clear_mtus_def)
      with cur have s1: "member_mtu m (lowest (mtus_of ds), map (clear_mtus ds) rows)
                 = (lowest (mtus_of ds), map (clear_mtus ds) rows)"
        by (simp add: member_mtu_def)
      have "set (mtus_of (ds @ [r])) = set (mtus_of ds)" using True by (auto simp: mtus_of_set)
      then have s2: "lowest (mtus_of (ds @ [r])) = lowest (mtus_of ds)" by (rule lowest_cong)
      have "set (ds @ [r]) = set ds" using True by auto
      then have s3: "clear_mtus (ds @ [r]) = clear_mtus ds" by (simp add: clear_mtus_def fun_eq_iff)
      from s1 s2 s3 show ?thesis by simp
    next
      case False
      then have c: "clear_mtus ds r = r" by (simp add: clear_mtus_def)
      show ?thesis
      proof (cases "int_mtu r")
        case None
        with cur c have s1: "member_mtu m (lowest (mtus_of ds), map (clear_mtus ds) rows)
                 = (lowest (mtus_of ds), map (clear_mtus ds) rows)"
          by (simp add: member_mtu_def)
        have s2: "mtus_of (ds @ [r]) = mtus_of ds" using None by (simp add: mtus_of_snoc)
        have "clear_mtus (ds @ [r]) x = clear_mtus ds x" for x
          using None mtu_None_update [of r] by (auto simp: clear_mtus_def)
        then have s3: "clear_mtus (ds @ [r]) = clear_mtus ds" by (simp add: fun_eq_iff)
        from s1 s2 s3 show ?thesis by simp
      next
        case (Some v)
        then have "v \<in> set (mtus_of ((ds @ [r]) @ first_rows rows ms))"
          by (auto simp: mtus_of_set)
        with nz have v: "v \<noteq> 0" by metis
        have "set (mtus_of ds) \<subseteq> set (mtus_of ((ds @ [r]) @ first_rows rows ms))"
          by (auto simp: mtus_of_set)
        with nz have z: "0 \<notin> set (mtus_of ds)" by blast
        have "member_mtu m (lowest (mtus_of ds), map (clear_mtus ds) rows)
                 = (lower_mtu v (lowest (mtus_of ds)), save (r\<lparr>int_mtu := None\<rparr>) (map (clear_mtus ds) rows))"
          using cur c Some v by (simp add: member_mtu_def)
        moreover have "lower_mtu v (lowest (mtus_of ds)) = lowest (mtus_of (ds @ [r]))"
          using lower_mtu_lowest [OF z v] Some by (simp add: mtus_of_snoc)
        moreover have "save (r\<lparr>int_mtu := None\<rparr>) (map (clear_mtus ds) rows) = map (clear_mtus (ds @ [r])) rows"
          using assms(1) rin False by (rule save_cleared)
        ultimately show ?thesis by simp
      qed
    qed
    have "fold member_mtu (m # ms) (lowest (mtus_of ds), map (clear_mtus ds) rows)
        = fold member_mtu ms (lowest (mtus_of (ds @ [r])), map (clear_mtus (ds @ [r])) rows)"
      using step by simp
    also have "\<dots> = (lowest (mtus_of ((ds @ [r]) @ first_rows rows ms)),
                      map (clear_mtus ((ds @ [r]) @ first_rows rows ms)) rows)"
      by (rule ih)
    finally show ?thesis by (simp only: app)
  qed
qed


lemma lowest_Nil: "lowest (mtus_of []) = None"
  by (simp add: lowest_def mtus_of_def List.map_filter_simps)

lemma clear_mtus_Nil: "map (clear_mtus []) rows = rows"
  by (rule map_idI) (simp add: clear_mtus_def)

lemma get_interface_map:
  assumes "\<And>r. int_pk (g r) = int_pk r" and "get_interface k rows = Inr p"
  shows "get_interface k (map g rows) = Inr (g p)"
proof -
  have "List.find (\<lambda>r. int_pk r = k) (map g rows) = map_option g (List.find (\<lambda>r. int_pk r = k) rows)"
    using assms(1) by (induction rows) auto
  with assms(2) show ?thesis by (auto simp: get_interface_def split: option.splits)
qed

text \<open>
  C6, as the code has it, for the body of the second loop on one LAGG. The rows looked at are
  the first \<^verbatim>\<open>Interfaces\<close> row for each member's NIC. Let the keys be unique, the interface
  of the LAGG exist, and none of those rows have the MTU 0. Then the step succeeds and leaves
  the LAGG tables alone. Where some of those rows have an MTU, the interface of the LAGG
  gets the lowest of them, every other one of those rows gets no MTU, and the remaining
  rows are unchanged. Where none of them has an MTU, the store is unchanged.
\<close>

theorem lagg_mtu_lowest:
  assumes "unique_pks db"
    and "get_interface (lagg_interface lagg) (Interfaces db) = Inr parent"
    and "0 \<notin> set (member_mtus lagg db)"
  shows "\<exists>db'. lagg_mtu lagg db = Inr db'
           \<and> LAGGInterface db' = LAGGInterface db
           \<and> LAGGInterfaceMembers db' = LAGGInterfaceMembers db
           \<and> (member_mtus lagg db \<noteq> [] \<longrightarrow>
                Interfaces db' =
                  map (\<lambda>r. if int_pk r = lagg_interface lagg
                           then r\<lparr>int_mtu := Some (Min (set (member_mtus lagg db)))\<rparr>
                           else if r \<in> set (member_rows lagg db) then r\<lparr>int_mtu := None\<rparr>
                           else r)
                    (Interfaces db))
           \<and> (member_mtus lagg db = [] \<longrightarrow> db' = db)"
proof -
  let ?rows = "Interfaces db"
  let ?F = "member_rows lagg db"
  let ?k = "lagg_interface lagg"
  from assms(1) have d: "distinct (map int_pk ?rows)" by (simp add: unique_pks_def)
  have nz: "0 \<notin> set (mtus_of ([] @ first_rows ?rows (lagginterfacemembers_set lagg db)))"
    using assms(3) by (simp add: member_mtus_def member_rows_def)
  from fold_member_mtu [OF d nz]
  have fold: "fold member_mtu (lagginterfacemembers_set lagg db) (None, ?rows)
      = (lowest (member_mtus lagg db), map (clear_mtus ?F) ?rows)"
    by (simp add: lowest_Nil clear_mtus_Nil member_mtus_def member_rows_def)
  show ?thesis
  proof (cases "member_mtus lagg db = []")
    case True
    then have "\<forall>r\<in>set ?F. int_mtu r = None"
      using mtus_of_set [of ?F] unfolding member_mtus_def by (metis (mono_tags, lifting) empty_iff mem_Collect_eq not_Some_eq set_empty)
    then have "clear_mtus ?F r = r" for r
      using mtu_None_update [of r] by (auto simp: clear_mtus_def)
    then have "map (clear_mtus ?F) ?rows = ?rows" by (simp add: map_idI)
    with fold True have "lagg_mtu lagg db = Inr db"
      by (simp add: lagg_mtu_def lowest_def truthy_def)
    with True show ?thesis by simp
  next
    case False
    let ?min = "Min (set (member_mtus lagg db))"
    from False have "?min \<in> set (member_mtus lagg db)" by (intro Min_in) auto
    with assms(3) have "?min \<noteq> 0" by metis
    with False have low: "lowest (member_mtus lagg db) = Some ?min" "truthy (Some ?min)"
      by (simp_all add: lowest_def truthy_def)
    have g: "get_interface ?k (map (clear_mtus ?F) ?rows) = Inr (clear_mtus ?F parent)"
      using assms(2) by (intro get_interface_map) (simp add: clear_mtus_pk)
    from get_interface_in [OF assms(2)] have pin: "parent \<in> set ?rows" and ppk: "int_pk parent = ?k"
      by simp_all
    have pk: "(int_pk x = ?k) = (x = parent)" if "x \<in> set ?rows" for x
      using d pin ppk that by (auto simp: distinct_map inj_on_def)
    have upd: "(clear_mtus ?F parent)\<lparr>int_mtu := Some ?min\<rparr> = parent\<lparr>int_mtu := Some ?min\<rparr>"
      by (simp add: clear_mtus_def)
    have "(if int_pk (clear_mtus ?F x) = int_pk (parent\<lparr>int_mtu := Some ?min\<rparr>)
           then parent\<lparr>int_mtu := Some ?min\<rparr> else clear_mtus ?F x)
        = (if int_pk x = ?k then x\<lparr>int_mtu := Some ?min\<rparr>
           else if x \<in> set ?F then x\<lparr>int_mtu := None\<rparr> else x)" if "x \<in> set ?rows" for x
      using pk [OF that] ppk by (auto simp: clear_mtus_def)
    then have "save (parent\<lparr>int_mtu := Some ?min\<rparr>) (map (clear_mtus ?F) ?rows)
        = map (\<lambda>r. if int_pk r = ?k then r\<lparr>int_mtu := Some ?min\<rparr>
                    else if r \<in> set ?F then r\<lparr>int_mtu := None\<rparr> else r) ?rows"
      unfolding save_def map_map comp_def by (intro map_cong refl)
    with fold low g upd have "lagg_mtu lagg db = Inr (db\<lparr>Interfaces :=
        map (\<lambda>r. if int_pk r = ?k then r\<lparr>int_mtu := Some ?min\<rparr>
                    else if r \<in> set ?F then r\<lparr>int_mtu := None\<rparr> else r) ?rows\<rparr>)"
      by (simp add: lagg_mtu_def)
    with False show ?thesis by simp
  qed
qed

lemma example_member_rows:
  "member_rows \<lparr>lagg_pk = 1, lagg_interface = 1\<rparr> example_db_extracted
     = [em0\<lparr>int_options := [], int_mtu := Some 9000\<rparr>, em1]"
  by code_simp

lemma example_member_mtus:
  "member_mtus \<lparr>lagg_pk = 1, lagg_interface = 1\<rparr> example_db_extracted = [9000, 1500]"
  by code_simp

theorem lagg_mtu_lowest_witness:
  "member_mtus \<lparr>lagg_pk = 1, lagg_interface = 1\<rparr> example_db_extracted = [9000, 1500]
   \<and> lagg_mtu \<lparr>lagg_pk = 1, lagg_interface = 1\<rparr> example_db_extracted = Inr example_db_migrated
   \<and> map int_mtu (Interfaces example_db_migrated) = [Some 1500, None, None]"
proof -
  let ?lagg = "\<lparr>lagg_pk = 1, lagg_interface = 1\<rparr>"
  have u: "unique_pks example_db_extracted"
    by (simp add: unique_pks_def example_db_extracted_def lagg0_def em0_def em1_def)
  have p: "get_interface (lagg_interface ?lagg) (Interfaces example_db_extracted) = Inr lagg0"
    by (simp add: get_interface_def example_db_extracted_def lagg0_def)
  have z: "0 \<notin> set (member_mtus ?lagg example_db_extracted)"
    unfolding example_member_mtus by simp
  have ne: "member_mtus ?lagg example_db_extracted \<noteq> []"
    unfolding example_member_mtus by simp
  from lagg_mtu_lowest [OF u p z] ne obtain db' where
    r: "lagg_mtu ?lagg example_db_extracted = Inr db'"
    and l: "LAGGInterface db' = LAGGInterface example_db_extracted"
    and m: "LAGGInterfaceMembers db' = LAGGInterfaceMembers example_db_extracted"
    and i: "Interfaces db' =
                  map (\<lambda>r. if int_pk r = lagg_interface ?lagg
                           then r\<lparr>int_mtu := Some (Min (set (member_mtus ?lagg example_db_extracted)))\<rparr>
                           else if r \<in> set (member_rows ?lagg example_db_extracted) then r\<lparr>int_mtu := None\<rparr>
                           else r)
                    (Interfaces example_db_extracted)"
    by blast
  from i [unfolded example_member_mtus example_member_rows]
  have "Interfaces db' = Interfaces example_db_migrated"
    by (simp add: example_db_extracted_def example_db_migrated_def lagg0_def em0_def em1_def)
  with l m have "db' = example_db_migrated"
    by (cases db') (simp add: example_db_extracted_def example_db_migrated_def)
  with r have "lagg_mtu ?lagg example_db_extracted = Inr example_db_migrated" by simp
  moreover have "map int_mtu (Interfaces example_db_migrated) = [Some 1500, None, None]"
    by (simp add: example_db_migrated_def lagg0_def em0_def)
  ultimately show ?thesis using example_member_mtus by blast
qed

text \<open>
  C6 as stated fails where a member's row has the MTU 0: \<^verbatim>\<open>if interface.int_mtu:\<close> takes 0
  like \<^verbatim>\<open>None\<close>. With the member MTUs 0 and 1500 the interface of the LAGG gets 1500, not
  the minimum 0 of the values that are not null, and the row with 0 keeps it.
\<close>

theorem lagg_mtu_lowest_counterexample:
  "member_rows \<lparr>lagg_pk = 1, lagg_interface = 1\<rparr> zero_mtu_db
     = [em0\<lparr>int_options := [], int_mtu := Some 0\<rparr>, em1]
   \<and> lagg_mtu \<lparr>lagg_pk = 1, lagg_interface = 1\<rparr> zero_mtu_db
       = Inr (zero_mtu_db\<lparr>Interfaces :=
                [lagg0\<lparr>int_mtu := Some 1500\<rparr>, em0\<lparr>int_options := [], int_mtu := Some 0\<rparr>,
                 em1\<lparr>int_mtu := None\<rparr>]\<rparr>)"
  by code_simp

end
